theory Spec2Isabelle
  imports Main "HOL-Library.Log_Nat" "HOL-Library.List_Lexorder"
begin

section \<open>Python values used by vidcat.py\<close>

subsection \<open>Strings and errors\<close>

text \<open>
  A Python \<open>str\<close> is a sequence of Unicode code points; a frame block contains the
  half-block character U+2584, so code points are natural numbers rather than the 8-bit
  \<open>char\<close>. ASCII literals of the source are written with \<open>ascii\<close>.
\<close>

type_synonym pystr = "nat list"

definition ascii :: "string \<Rightarrow> pystr" where
  "ascii s = map of_char s"

text \<open>
  The exceptions that the modelled code can raise. \<open>ValueError\<close> and \<open>RuntimeError\<close>
  carry the message of the source; \<open>ZeroDivisionError\<close> carries CPython's message, which
  tells integer true division (\<open>division by zero\<close>) from float division
  (\<open>float division by zero\<close>).
\<close>

datatype error =
    ValueError pystr
  | RuntimeError pystr
  | ZeroDivisionError string
  | OverflowError
  | KeyError pystr
  | TypeError
  | IndexError
  | AttributeError
  | UnicodeEncodeError
  | OSError
  | CalledProcessError

definition bind_err :: "error + 'a \<Rightarrow> ('a \<Rightarrow> error + 'b) \<Rightarrow> error + 'b" where
  "bind_err m f = (case m of Inl e \<Rightarrow> Inl e | Inr x \<Rightarrow> f x)"

subsection \<open>Decimal formatting of integers\<close>

fun digits :: "nat \<Rightarrow> pystr" where
  "digits n = (if n < 10 then [48 + n] else digits (n div 10) @ [48 + n mod 10])"

declare digits.simps [simp del]

definition str_int :: "int \<Rightarrow> pystr" where
  "str_int i = (if i < 0 then 45 # digits (nat (- i)) else digits (nat i))"

subsection \<open>Floats\<close>

text \<open>
  A Python \<open>float\<close> is an IEEE-754 binary64 value. A finite float is the rational number
  it denotes (the two signed zeros are identified: no modelled operation tells them
  apart, division by either raises); the infinities and NaN are separate values.
  Every arithmetic operation computes the exact rational result and rounds it to the
  nearest binary64 value, ties to even: \<open>round64\<close>. \<open>ilog2 q\<close> is the binary exponent of
  a positive rational; exponents below \<open>-1022\<close> are subnormal and share the spacing
  \<open>2 powi (-1074)\<close>; a rounded magnitude of \<open>2 powi 1024\<close> or more overflows.
\<close>

datatype pyfloat = Fin rat | PInf | NInf | NaN

definition ilog2 :: "rat \<Rightarrow> int" where
  "ilog2 q = (case quotient_of q of (n, d) \<Rightarrow>
     (let e = bitlen n - bitlen d in if 2 powi e \<le> q then e else e - 1))"

definition round_half_even :: "rat \<Rightarrow> int" where
  "round_half_even x = (let f = \<lfloor>x\<rfloor>; r = x - of_int f in
     if r < 1 / 2 then f else if 1 / 2 < r then f + 1 else if even f then f else f + 1)"

definition round64 :: "rat \<Rightarrow> rat" where
  "round64 q = (if q = 0 then 0 else
     (let a = \<bar>q\<bar>; e = max (ilog2 a) (- 1022); u = 2 powi (e - 52)
      in sgn q * of_int (round_half_even (a / u)) * u))"

definition float_result :: "rat \<Rightarrow> pyfloat" where
  "float_result q = (let r = round64 q in
     if 2 powi 1024 \<le> r then PInf else if r \<le> - (2 powi 1024) then NInf else Fin r)"

text \<open>
  The same overflow test on the exponent of a positive rational, without computing
  \<open>2 powi 1024\<close>; \<open>float_result_code\<close> below proves that it is the same test.
\<close>

definition overflows :: "rat \<Rightarrow> bool" where
  "overflows a = (let e = ilog2 a in
     if 1024 \<le> e then True
     else if e = 1023 then round_half_even (a / 2 powi 971) = 2 ^ 53
     else False)"

text \<open>\<open>float(i)\<close> for an int, as the mixed operations \<open>int / float\<close> and \<open>int * float\<close> do it.\<close>

definition float_of_int :: "int \<Rightarrow> error + pyfloat" where
  "float_of_int i = (case float_result (of_int i) of
       Fin r \<Rightarrow> Inr (Fin r)
     | _ \<Rightarrow> Inl OverflowError)"

text \<open>\<open>a / b\<close> for two ints: the correctly rounded quotient.\<close>

definition int_truediv :: "int \<Rightarrow> int \<Rightarrow> error + pyfloat" where
  "int_truediv a b = (if b = 0 then Inl (ZeroDivisionError ''division by zero'')
     else (case float_result (of_int a / of_int b) of
         Fin r \<Rightarrow> Inr (Fin r)
       | _ \<Rightarrow> Inl OverflowError))"

fun ieee_div :: "pyfloat \<Rightarrow> pyfloat \<Rightarrow> pyfloat" where
  "ieee_div NaN y = NaN"
| "ieee_div x NaN = NaN"
| "ieee_div (Fin a) (Fin b) = float_result (a / b)"
| "ieee_div (Fin a) y = Fin 0"
| "ieee_div PInf (Fin b) = (if 0 < b then PInf else NInf)"
| "ieee_div NInf (Fin b) = (if 0 < b then NInf else PInf)"
| "ieee_div x y = NaN"

text \<open>\<open>x / y\<close> for two floats: Python raises on a zero divisor before dividing.\<close>

definition float_truediv :: "pyfloat \<Rightarrow> pyfloat \<Rightarrow> error + pyfloat" where
  "float_truediv x y = (if y = Fin 0 then Inl (ZeroDivisionError ''float division by zero'')
     else Inr (ieee_div x y))"

fun ieee_mul :: "pyfloat \<Rightarrow> pyfloat \<Rightarrow> pyfloat" where
  "ieee_mul NaN y = NaN"
| "ieee_mul x NaN = NaN"
| "ieee_mul (Fin a) (Fin b) = float_result (a * b)"
| "ieee_mul (Fin a) PInf = (if a = 0 then NaN else if 0 < a then PInf else NInf)"
| "ieee_mul (Fin a) NInf = (if a = 0 then NaN else if 0 < a then NInf else PInf)"
| "ieee_mul PInf (Fin b) = (if b = 0 then NaN else if 0 < b then PInf else NInf)"
| "ieee_mul NInf (Fin b) = (if b = 0 then NaN else if 0 < b then NInf else PInf)"
| "ieee_mul PInf PInf = PInf"
| "ieee_mul PInf NInf = NInf"
| "ieee_mul NInf PInf = NInf"
| "ieee_mul NInf NInf = PInf"

text \<open>\<open>int(x)\<close> for a float: truncation towards zero.\<close>

definition int_of_float :: "pyfloat \<Rightarrow> error + int" where
  "int_of_float x = (case x of
       Fin q \<Rightarrow> Inr (if 0 \<le> q then \<lfloor>q\<rfloor> else \<lceil>q\<rceil>)
     | NaN \<Rightarrow> Inl (ValueError (ascii ''cannot convert float NaN to integer''))
     | _ \<Rightarrow> Inl OverflowError)"

text \<open>A number that is an int or a float, as \<open>avg_frame_size\<close> is.\<close>

datatype pynum = PyInt int | PyFloat pyfloat

definition num_mul_float :: "pynum \<Rightarrow> pyfloat \<Rightarrow> error + pyfloat" where
  "num_mul_float a y = (case a of
       PyInt i \<Rightarrow> bind_err (float_of_int i) (\<lambda>x. Inr (ieee_mul x y))
     | PyFloat x \<Rightarrow> Inr (ieee_mul x y))"

section \<open>VideoProcessor\<close>

text \<open>
  A \<open>Path\<close> is the list of its parts, which is what pathlib compares and sorts by.
\<close>

type_synonym path = "pystr list"

record video_processor =
  video_path :: path
  terminal_width :: int
  fps :: "pyfloat option"
  width :: "int option"
  height :: "int option"
  frame_count :: "int option"
  terminal_height :: "int option"

text \<open>\<open>not x\<close> for an attribute that is \<open>None\<close> or an int.\<close>

definition falsy :: "int option \<Rightarrow> bool" where
  "falsy x = (case x of None \<Rightarrow> True | Some i \<Rightarrow> i = 0)"

text \<open>
  \<open>calculate_terminal_dimensions\<close> (lines 92 to 108). The result is the returned pair
  and the object with \<open>terminal_height\<close> assigned; an exception leaves the object as it
  was, since the first assignment follows the last operation that can raise.
\<close>

definition calculate_terminal_dimensions ::
  "video_processor \<Rightarrow> error + ((int \<times> int) \<times> video_processor)" where
  "calculate_terminal_dimensions self =
     (if falsy (width self) \<or> falsy (height self)
      then Inl (ValueError (ascii ''Video dimensions not set - call get_video_metadata first''))
      else (case (width self, height self) of
          (Some w, Some h) \<Rightarrow>
            bind_err (int_truediv w h) (\<lambda>aspect_ratio.
            bind_err (float_of_int (terminal_width self)) (\<lambda>tw.
            bind_err (float_truediv tw aspect_ratio) (\<lambda>q.
            bind_err (float_truediv q (Fin 2)) (\<lambda>q2.
            bind_err (int_of_float q2) (\<lambda>th0.
              let th1 = (if th0 mod 2 \<noteq> 0 then th0 - 1 else th0);
                  th2 = max 2 th1
              in Inr ((terminal_width self, th2),
                      self\<lparr>terminal_height := Some th2\<rparr>))))))
        | _ \<Rightarrow> Inl (ValueError (ascii ''Video dimensions not set - call get_video_metadata first''))))"

section \<open>Playback command\<close>

definition join_parts :: "pystr list \<Rightarrow> pystr" where
  "join_parts ps = (case ps of [] \<Rightarrow> [] | p # rest \<Rightarrow> p @ concat (map (\<lambda>x. 47 # x) rest))"

text \<open>
  \<open>str(path)\<close> of a POSIX path. The first part of an absolute path is its root, which
  pathlib keeps as \<open>/\<close> or as \<open>//\<close> (exactly two leading slashes); the string is the root
  followed by the other parts joined by \<open>/\<close>. A relative path is its parts joined by
  \<open>/\<close>, and the path without parts is \<open>.\<close>.
\<close>

definition str_of_path :: "path \<Rightarrow> pystr" where
  "str_of_path ps = (case ps of
       [] \<Rightarrow> ascii ''.''
     | p # rest \<Rightarrow>
         if p = ascii ''/'' \<or> p = ascii ''//'' then p @ join_parts rest
         else join_parts (p # rest))"

text \<open>
  \<open>generate_playback_command\<close> (lines 216 to 222); \<open>avg_frame_size\<close> is the float
  \<open>sum / len\<close> or the int 0 of line 208.
\<close>

definition generate_playback_command :: "path \<Rightarrow> pyfloat \<Rightarrow> pynum \<Rightarrow> error + pystr" where
  "generate_playback_command output_path fps_arg avg_frame_size_arg =
     bind_err (num_mul_float avg_frame_size_arg fps_arg) (\<lambda>product.
     bind_err (int_of_float product) (\<lambda>bytes_per_second.
       Inr (ascii ''cat '' @ str_of_path output_path @ ascii '' | zstd -d | pv -q -L ''
            @ str_int bytes_per_second)))"

section \<open>External programs and library calls\<close>

text \<open>
  What \<open>subprocess.run\<close> observes of a child process: it could not be started, or it
  exited with a return code, its standard output and its standard error.
\<close>

datatype proc = SpawnError | Exited int pystr pystr

text \<open>
  A parsed JSON document, as \<open>json.loads\<close> returns it. \<open>JObj\<close> lists the items of a dict,
  each key once.
\<close>

datatype json =
    JNull
  | JBool bool
  | JInt int
  | JFloat pyfloat
  | JStr pystr
  | JArr "json list"
  | JObj "(pystr \<times> json) list"

text \<open>The file system: the regular files and their text. Permissions are not modelled.\<close>

type_synonym filesystem = "path \<Rightarrow> pystr option"

text \<open>
  The programs and library functions that vidcat.py calls and does not define. Every
  theorem below holds for all of them.
  \<^item> \<open>ffprobe p\<close>: the run of ffprobe on the video \<open>p\<close>.
  \<^item> \<open>json_loads s\<close>: \<open>json.loads\<close>, \<open>Inl\<close> the message of a JSONDecodeError.
  \<^item> \<open>int_of_str\<close>, \<open>float_of_str\<close>: \<open>int(s)\<close> and \<open>float(s)\<close> on a string, \<open>None\<close> a ValueError.
  \<^item> \<open>ffmpeg p w h d\<close>: the run of ffmpeg scaling \<open>p\<close> to \<open>w\<close> by \<open>h\<close> pixels into the
    directory \<open>d\<close>, and the names in \<open>d\<close> afterwards, in the order in which the
    file system enumerates them.
  \<^item> \<open>with_suffix p s\<close>: pathlib's \<open>p.with_suffix(s)\<close>.
  \<^item> \<open>can_open_w fs p\<close>: whether \<open>open(p, "w")\<close> succeeds.
  \<^item> \<open>encodable s\<close>: whether the text encoding of the opened file can encode \<open>s\<close>.
  \<^item> \<open>zstd i out fs\<close>: the run of \<open>zstd -f i -o out\<close> and the file system it leaves.
  \<^item> \<open>render w h p\<close>: opening the image \<open>p\<close> and printing its rich-pixels rendering
    on a truecolor console of \<open>w\<close> columns and \<open>h\<close> rows, captured as text.
\<close>

record host =
  ffprobe :: "path \<Rightarrow> proc"
  json_loads :: "pystr \<Rightarrow> pystr + json"
  int_of_str :: "pystr \<Rightarrow> int option"
  float_of_str :: "pystr \<Rightarrow> pyfloat option"
  ffmpeg :: "path \<Rightarrow> int \<Rightarrow> int \<Rightarrow> path \<Rightarrow> proc \<times> pystr list"
  with_suffix :: "path \<Rightarrow> pystr \<Rightarrow> error + path"
  can_open_w :: "filesystem \<Rightarrow> path \<Rightarrow> bool"
  encodable :: "pystr \<Rightarrow> bool"
  zstd :: "path \<Rightarrow> path \<Rightarrow> filesystem \<Rightarrow> proc \<times> filesystem"
  render :: "int \<Rightarrow> int \<Rightarrow> path \<Rightarrow> error + pystr"

section \<open>Metadata probe\<close>

text \<open>\<open>x[key]\<close> with a string key: only a dict has string keys.\<close>

definition subscript :: "json \<Rightarrow> pystr \<Rightarrow> error + json" where
  "subscript x key = (case x of
       JObj kvs \<Rightarrow> (case map_of kvs key of None \<Rightarrow> Inl (KeyError key) | Some v \<Rightarrow> Inr v)
     | _ \<Rightarrow> Inl TypeError)"

text \<open>\<open>for stream in x\<close>: a list gives its elements, a dict its keys, a string its characters.\<close>

definition iterate :: "json \<Rightarrow> error + json list" where
  "iterate x = (case x of
       JArr xs \<Rightarrow> Inr xs
     | JObj kvs \<Rightarrow> Inr (map (\<lambda>kv. JStr (fst kv)) kvs)
     | JStr s \<Rightarrow> Inr (map (\<lambda>c. JStr [c]) s)
     | _ \<Rightarrow> Inl TypeError)"

text \<open>The loop of lines 56 to 60: the first stream whose \<open>codec_type\<close> is \<open>video\<close>.\<close>

fun find_video_stream :: "json list \<Rightarrow> error + json option" where
  "find_video_stream [] = Inr None"
| "find_video_stream (stream # rest) =
     bind_err (subscript stream (ascii ''codec_type'')) (\<lambda>t.
       if t = JStr (ascii ''video'') then Inr (Some stream) else find_video_stream rest)"

text \<open>\<open>int(x)\<close> and \<open>float(x)\<close> on a parsed JSON value.\<close>

definition py_int :: "host \<Rightarrow> json \<Rightarrow> error + int" where
  "py_int H x = (case x of
       JInt i \<Rightarrow> Inr i
     | JBool b \<Rightarrow> Inr (if b then 1 else 0)
     | JFloat f \<Rightarrow> int_of_float f
     | JStr s \<Rightarrow> (case int_of_str H s of
           None \<Rightarrow> Inl (ValueError (ascii ''invalid literal for int()''))
         | Some i \<Rightarrow> Inr i)
     | _ \<Rightarrow> Inl TypeError)"

definition str_to_float :: "host \<Rightarrow> pystr \<Rightarrow> error + pyfloat" where
  "str_to_float H s = (case float_of_str H s of
       None \<Rightarrow> Inl (ValueError (ascii ''could not convert string to float''))
     | Some f \<Rightarrow> Inr f)"

definition py_float :: "host \<Rightarrow> json \<Rightarrow> error + pyfloat" where
  "py_float H x = (case x of
       JFloat f \<Rightarrow> Inr f
     | JInt i \<Rightarrow> float_of_int i
     | JBool b \<Rightarrow> Inr (Fin (if b then 1 else 0))
     | JStr s \<Rightarrow> str_to_float H s
     | _ \<Rightarrow> Inl TypeError)"

text \<open>\<open>s.split(sep)\<close> for a one-character separator.\<close>

fun split_on :: "nat \<Rightarrow> pystr \<Rightarrow> pystr list" where
  "split_on sep [] = [[]]"
| "split_on sep (c # cs) =
     (if c = sep then [] # split_on sep cs
      else (case split_on sep cs of
          p # ps \<Rightarrow> (c # p) # ps
        | [] \<Rightarrow> [[c]]))"

text \<open>
  Lines 69 and 70: the frame rate from \<open>r_frame_rate\<close>. \<open>float(fps_parts[0])\<close> is
  evaluated before \<open>fps_parts[1]\<close> is read.
\<close>

definition parse_fps :: "host \<Rightarrow> json \<Rightarrow> error + pyfloat" where
  "parse_fps H video_stream =
     bind_err (subscript video_stream (ascii ''r_frame_rate'')) (\<lambda>r.
       case r of
         JStr s \<Rightarrow>
           (case split_on 47 s of
              [] \<Rightarrow> Inl IndexError
            | p0 # ps \<Rightarrow>
                bind_err (str_to_float H p0) (\<lambda>num.
                  case ps of
                    [] \<Rightarrow> Inl IndexError
                  | p1 # _ \<Rightarrow> bind_err (str_to_float H p1) (\<lambda>den. float_truediv num den)))
       | _ \<Rightarrow> Inl AttributeError)"

definition has_key :: "json \<Rightarrow> pystr \<Rightarrow> bool" where
  "has_key x key = (case x of JObj kvs \<Rightarrow> map_of kvs key \<noteq> None | _ \<Rightarrow> False)"

text \<open>Lines 73 to 78: the frame count, from \<open>nb_frames\<close> or from the duration.\<close>

definition read_frame_count :: "host \<Rightarrow> json \<Rightarrow> json \<Rightarrow> pyfloat \<Rightarrow> error + int" where
  "read_frame_count H metadata video_stream f =
     (if has_key video_stream (ascii ''nb_frames'')
      then bind_err (subscript video_stream (ascii ''nb_frames'')) (py_int H)
      else bind_err (subscript metadata (ascii ''format'')) (\<lambda>fmt.
           bind_err (subscript fmt (ascii ''duration'')) (\<lambda>d.
           bind_err (py_float H d) (\<lambda>duration.
             int_of_float (ieee_mul duration f)))))"

text \<open>
  The dict that \<open>get_video_metadata\<close> returns; its keys \<open>fps\<close>, \<open>width\<close>, \<open>height\<close> and
  \<open>frame_count\<close> carry the prefix \<open>m_\<close> here, the plain names being the attributes of the
  object.
\<close>

record video_metadata =
  m_fps :: pyfloat
  m_width :: int
  m_height :: int
  m_frame_count :: int

text \<open>
  Lines 55 to 85, on the parsed document. The attributes of the object are assigned one
  by one, so an exception leaves the earlier ones assigned.
\<close>

definition read_metadata ::
  "host \<Rightarrow> json \<Rightarrow> video_processor \<Rightarrow> (error + video_metadata) \<times> video_processor" where
  "read_metadata H metadata self =
     (case bind_err (subscript metadata (ascii ''streams'')) (\<lambda>streams.
           bind_err (iterate streams) find_video_stream) of
        Inl e \<Rightarrow> (Inl e, self)
      | Inr None \<Rightarrow> (Inl (ValueError (ascii ''No video stream found'')), self)
      | Inr (Some video_stream) \<Rightarrow>
        (case bind_err (subscript video_stream (ascii ''width'')) (py_int H) of
           Inl e \<Rightarrow> (Inl e, self)
         | Inr w \<Rightarrow>
           (case bind_err (subscript video_stream (ascii ''height'')) (py_int H) of
              Inl e \<Rightarrow> (Inl e, self\<lparr>width := Some w\<rparr>)
            | Inr h \<Rightarrow>
              (case parse_fps H video_stream of
                 Inl e \<Rightarrow> (Inl e, self\<lparr>width := Some w, height := Some h\<rparr>)
               | Inr f \<Rightarrow>
                 (case read_frame_count H metadata video_stream f of
                    Inl e \<Rightarrow> (Inl e, self\<lparr>width := Some w, height := Some h, fps := Some f\<rparr>)
                  | Inr n \<Rightarrow>
                      (Inr \<lparr>m_fps = f, m_width = w, m_height = h, m_frame_count = n\<rparr>,
                       self\<lparr>width := Some w, height := Some h, fps := Some f,
                            frame_count := Some n\<rparr>))))))"

text \<open>
  \<open>get_video_metadata\<close> (lines 38 to 90). Only CalledProcessError and JSONDecodeError
  are caught and raised again as RuntimeError; every other exception propagates as it is.
\<close>

definition get_video_metadata ::
  "host \<Rightarrow> video_processor \<Rightarrow> (error + video_metadata) \<times> video_processor" where
  "get_video_metadata H self =
     (case ffprobe H (video_path self) of
        SpawnError \<Rightarrow> (Inl OSError, self)
      | Exited rc out err \<Rightarrow>
          if rc \<noteq> 0 then (Inl (RuntimeError (ascii ''ffprobe failed: '' @ err)), self)
          else (case json_loads H out of
              Inl msg \<Rightarrow>
                (Inl (RuntimeError (ascii ''Failed to parse ffprobe output: '' @ msg)), self)
            | Inr metadata \<Rightarrow> read_metadata H metadata self))"

section \<open>Frame extraction\<close>

text \<open>\<open>fnmatch\<close> of a name against \<open>frame_*.png\<close>.\<close>

definition glob_match :: "pystr \<Rightarrow> bool" where
  "glob_match name = (10 \<le> length name \<and> take 6 name = ascii ''frame_''
     \<and> drop (length name - 4) name = ascii ''.png'')"

text \<open>
  \<open>extract_frames\<close> (lines 110 to 137): the sequence of paths that the generator yields.
  \<open>sorted\<close> orders paths by their parts, strings by their code points: the lexicographic
  order of \<open>List_Lexorder\<close>.
\<close>

definition extract_frames :: "host \<Rightarrow> video_processor \<Rightarrow> path \<Rightarrow> error + path list" where
  "extract_frames H self output_dir =
     (case terminal_height self of
        None \<Rightarrow> Inl TypeError
      | Some th \<Rightarrow>
        (case ffmpeg H (video_path self) (terminal_width self) (th * 2) output_dir of
           (SpawnError, entries) \<Rightarrow> Inl OSError
         | (Exited rc out err, entries) \<Rightarrow>
             if rc \<noteq> 0
             then Inl (RuntimeError (ascii ''ffmpeg frame extraction failed: '' @ err))
             else Inr (sort (map (\<lambda>name. output_dir @ [name]) (filter glob_match entries)))))"

text \<open>
  The name that the pattern \<open>frame_%06d.png\<close> of line 125 gives frame \<open>n\<close>: at least six
  digits, padded with zeros on the left, and more digits when the number needs them.
\<close>

definition zero_pad :: "nat \<Rightarrow> pystr \<Rightarrow> pystr" where
  "zero_pad w ds = replicate (w - length ds) 48 @ ds"

definition frame_name :: "nat \<Rightarrow> pystr" where
  "frame_name n = ascii ''frame_'' @ zero_pad 6 (digits n) @ ascii ''.png''"

section \<open>Frame renderer\<close>

record ansi_frame_generator =
  ansi_terminal_width :: int
  ansi_terminal_height :: int

text \<open>\<open>frame_to_ansi\<close> (lines 145 to 171).\<close>

definition frame_to_ansi :: "host \<Rightarrow> ansi_frame_generator \<Rightarrow> path \<Rightarrow> error + pystr" where
  "frame_to_ansi H self image_path =
     bind_err (render H (ansi_terminal_width self) (ansi_terminal_height self) image_path)
       (\<lambda>ansi_output.
          Inr ((27 # ascii ''['' @ str_int (ansi_terminal_height self) @ ascii ''A'')
               @ ansi_output))"

section \<open>Stream encoder\<close>

definition hide_cursor :: pystr where
  "hide_cursor = 27 # ascii ''[?25l''"

definition show_cursor :: pystr where
  "show_cursor = 27 # ascii ''[?25h''"

text \<open>
  The writes of lines 184 to 193 on the open file: each \<open>f.write\<close> appends to the text
  written so far, or raises when the encoding of the file cannot encode its argument;
  the file is closed with what was written before.
\<close>

fun write_all :: "(pystr \<Rightarrow> bool) \<Rightarrow> pystr \<Rightarrow> pystr list \<Rightarrow> error option \<times> pystr" where
  "write_all enc written [] = (None, written)"
| "write_all enc written (chunk # chunks) =
     (if enc chunk then write_all enc (written @ chunk) chunks
      else (Some UnicodeEncodeError, written))"

text \<open>
  The \<open>with\<close> block of lines 182 to 193. \<open>"\n" * terminal_height\<close> is the empty string for
  a negative height.
\<close>

definition write_stream ::
  "host \<Rightarrow> path \<Rightarrow> pystr list \<Rightarrow> int \<Rightarrow> filesystem \<Rightarrow> error option \<times> filesystem" where
  "write_stream H temp_file frame_data_list th fs =
     (if \<not> can_open_w H fs temp_file then (Some OSError, fs)
      else (case write_all (encodable H) []
                   ([replicate (nat th) 10, hide_cursor] @ frame_data_list @ [show_cursor]) of
              (r, written) \<Rightarrow> (r, fs(temp_file \<mapsto> written))))"

text \<open>\<open>s.encode("utf-8")\<close>: a surrogate code point cannot be encoded.\<close>

definition utf8_encode_cp :: "nat \<Rightarrow> nat list option" where
  "utf8_encode_cp c =
     (if c < 128 then Some [c]
      else if c < 2048 then Some [192 + c div 64, 128 + c mod 64]
      else if c < 65536 then
        (if 55296 \<le> c \<and> c < 57344 then None
         else Some [224 + c div 4096, 128 + c div 64 mod 64, 128 + c mod 64])
      else if c < 1114112 then
        Some [240 + c div 262144, 128 + c div 4096 mod 64, 128 + c div 64 mod 64,
              128 + c mod 64]
      else None)"

fun encode_utf8 :: "pystr \<Rightarrow> error + nat list" where
  "encode_utf8 [] = Inr []"
| "encode_utf8 (c # cs) =
     (case utf8_encode_cp c of
        None \<Rightarrow> Inl UnicodeEncodeError
      | Some bs \<Rightarrow> bind_err (encode_utf8 cs) (\<lambda>rest. Inr (bs @ rest)))"

text \<open>The list comprehension of lines 201 to 203.\<close>

fun frame_sizes_of :: "pystr list \<Rightarrow> error + nat list" where
  "frame_sizes_of [] = Inr []"
| "frame_sizes_of (frame_data # rest) =
     bind_err (encode_utf8 frame_data) (\<lambda>bs.
     bind_err (frame_sizes_of rest) (\<lambda>sizes. Inr (length bs # sizes)))"

record compression_metadata =
  frame_sizes :: "nat list"
  total_frames :: nat
  avg_frame_size :: pynum

text \<open>Lines 201 to 209: the statistics.\<close>

definition statistics :: "pystr list \<Rightarrow> error + compression_metadata" where
  "statistics frame_data_list =
     bind_err (frame_sizes_of frame_data_list) (\<lambda>sizes.
     bind_err (if sizes \<noteq> []
               then map_sum id PyFloat
                      (int_truediv (int (sum_list sizes)) (int (length sizes)))
               else Inr (PyInt 0)) (\<lambda>avg.
       Inr \<lparr>frame_sizes = sizes, total_frames = length sizes, avg_frame_size = avg\<rparr>))"

text \<open>The body of the \<open>try\<close> statement, lines 182 to 209.\<close>

definition compress_try ::
  "host \<Rightarrow> pystr list \<Rightarrow> path \<Rightarrow> int \<Rightarrow> path \<Rightarrow> filesystem
     \<Rightarrow> (error + compression_metadata) \<times> filesystem" where
  "compress_try H frame_data_list output_path th temp_file fs =
     (case write_stream H temp_file frame_data_list th fs of
        (Some e, fs1) \<Rightarrow> (Inl e, fs1)
      | (None, fs1) \<Rightarrow>
        (case zstd H temp_file output_path fs1 of
           (SpawnError, fs2) \<Rightarrow> (Inl OSError, fs2)
         | (Exited rc out err, fs2) \<Rightarrow>
             if rc \<noteq> 0 then (Inl CalledProcessError, fs2)
             else (statistics frame_data_list, fs2)))"

text \<open>
  \<open>compress_frames_to_file\<close> (lines 174 to 213): the temporary name is computed before
  the \<open>try\<close> statement; the \<open>finally\<close> clause removes the temporary file when it exists,
  whatever the body did.
\<close>

definition compress_frames_to_file ::
  "host \<Rightarrow> pystr list \<Rightarrow> path \<Rightarrow> int \<Rightarrow> filesystem
     \<Rightarrow> (error + compression_metadata) \<times> filesystem" where
  "compress_frames_to_file H frame_data_list output_path th fs =
     (case with_suffix H output_path (ascii ''.ansi.tmp'') of
        Inl e \<Rightarrow> (Inl e, fs)
      | Inr temp_file \<Rightarrow>
        (case compress_try H frame_data_list output_path th temp_file fs of
           (result, fs') \<Rightarrow>
             (result, if fs' temp_file \<noteq> None then fs'(temp_file := None) else fs')))"

section \<open>The specification's formulas\<close>

text \<open>
  The row count as section 4.1 of the specification words it, in exact arithmetic:
  \<open>a = W/H\<close>, \<open>r = floor(C / a / 2)\<close>, one less if odd, at least 2.
\<close>

definition spec_rows :: "int \<Rightarrow> int \<Rightarrow> int \<Rightarrow> int" where
  "spec_rows W H C =
     (let a = (of_int W :: rat) / of_int H;
          r = \<lfloor>of_int C / a / 2\<rfloor>;
          r' = (if odd r then r - 1 else r)
      in max 2 r')"

text \<open>
  The same formula with \<open>W/H\<close> and \<open>C / a\<close> binary64 divisions, each rounded to the
  nearest float; halving a float and converting a column count below \<open>2 ^ 53\<close> to a
  float are exact.
\<close>

definition binary64_rows :: "int \<Rightarrow> int \<Rightarrow> int \<Rightarrow> int" where
  "binary64_rows W H C =
     (let a = round64 (of_int W / of_int H);
          q = round64 (of_int C / a);
          r = \<lfloor>q / 2\<rfloor>;
          r' = (if odd r then r - 1 else r)
      in max 2 r')"

text \<open>
  The playback command as section 4.6 of the specification words it:
  \<open>bytes_per_second = round(avg_frame_size * frame_rate)\<close>, rounding to the nearest integer.
\<close>

definition spec_generate_playback_command :: "path \<Rightarrow> rat \<Rightarrow> rat \<Rightarrow> pystr" where
  "spec_generate_playback_command output_path f s =
     (let bytes_per_second = round_half_even (s * f)
      in ascii ''cat '' @ str_of_path output_path @ ascii '' | zstd -d | pv -q -L ''
         @ str_int bytes_per_second)"

text \<open>The number that a string of decimal digits denotes.\<close>

definition decimal_value :: "pystr \<Rightarrow> nat" where
  "decimal_value ds = foldl (\<lambda>a d. 10 * a + (d - 48)) 0 ds"

section \<open>A concrete host\<close>

text \<open>
  A host on which the theorems are instantiated: every file can be opened and every
  string encoded, \<open>zstd\<close> exits with the given return code and writes its output when
  that is 0, and the temporary name replaces the last part of the path.
\<close>

definition demo_host :: "int \<Rightarrow> host" where
  "demo_host rc =
     \<lparr>ffprobe = (\<lambda>p. SpawnError),
      json_loads = (\<lambda>s. Inl []),
      int_of_str = (\<lambda>s. None),
      float_of_str = (\<lambda>s. None),
      ffmpeg = (\<lambda>p w h d. (SpawnError, [])),
      with_suffix = (\<lambda>p s. Inr (butlast p @ [ascii ''video'' @ s])),
      can_open_w = (\<lambda>fs p. True),
      encodable = (\<lambda>s. True),
      zstd = (\<lambda>i out fs. (Exited rc [] [], if rc = 0 then fs(out \<mapsto> ascii ''zstd'') else fs)),
      render = (\<lambda>w h p. Inr (ascii ''pixels''))\<rparr>"

text \<open>A host whose ffmpeg succeeds and leaves the given names in the directory.\<close>

definition listing_host :: "pystr list \<Rightarrow> host" where
  "listing_host entries = (demo_host 0)\<lparr>ffmpeg := (\<lambda>p w h d. (Exited 0 [] [], entries))\<rparr>"

text \<open>
  A host whose ffprobe exits with the given return code and standard error, and whose
  JSON parser gives the given result; \<open>int\<close> and \<open>float\<close> parse the strings of the examples.
\<close>

definition probe_host :: "int \<Rightarrow> pystr \<Rightarrow> pystr + json \<Rightarrow> host" where
  "probe_host rc err parsed = (demo_host 0)
     \<lparr>ffprobe := (\<lambda>p. Exited rc (ascii ''ffprobe output'') err),
      json_loads := (\<lambda>s. parsed),
      int_of_str := (\<lambda>s. if s = ascii ''10'' then Some 10 else None),
      float_of_str := (\<lambda>s. if s = ascii ''30'' then Some (Fin 30)
                            else if s = ascii ''1'' then Some (Fin 1) else None)\<rparr>"

definition audio_stream :: json where
  "audio_stream = JObj [(ascii ''codec_type'', JStr (ascii ''audio''))]"

definition video_stream_full :: json where
  "video_stream_full = JObj
     [(ascii ''codec_type'', JStr (ascii ''video'')),
      (ascii ''width'', JInt 1920),
      (ascii ''height'', JInt 1080),
      (ascii ''r_frame_rate'', JStr (ascii ''30/1'')),
      (ascii ''nb_frames'', JStr (ascii ''10''))]"

definition new_processor :: video_processor where
  "new_processor = \<lparr>video_path = [ascii ''in.mp4''], terminal_width = 80, fps = None,
      width = None, height = None, frame_count = None, terminal_height = None\<rparr>"

section \<open>Notions used in the statements\<close>

text \<open>A stream whose \<open>codec_type\<close> can be read and is not \<open>video\<close>.\<close>

definition no_video :: "json \<Rightarrow> bool" where
  "no_video s = (\<exists>t. subscript s (ascii ''codec_type'') = Inr t \<and> t \<noteq> JStr (ascii ''video''))"

text \<open>The last \<open>w\<close> decimal digits of a number.\<close>

fun fixed_digits :: "nat \<Rightarrow> nat \<Rightarrow> pystr" where
  "fixed_digits 0 n = []"
| "fixed_digits (Suc w) n = fixed_digits w (n div 10) @ [48 + n mod 10]"

section \<open>Properties of the float model\<close>

lemma pow2_nat_bitlen:
  assumes "0 < n"
  shows "(2::rat) powi (bitlen n - 1) \<le> of_int n" and "of_int n < (2::rat) powi bitlen n"
proof -
  from bitlen_bounds[OF assms] have a: "2 ^ nat (bitlen n - 1) \<le> n" and b: "n < 2 ^ nat (bitlen n)"
    by auto
  have ge1: "1 \<le> bitlen n" using assms bitlen_eq_zero_iff[of n] bitlen_nonneg[of n] by linarith
  have "(of_int (2 ^ nat (bitlen n - 1)) :: rat) \<le> of_int n" using a by (simp only: of_int_le_iff)
  then show "(2::rat) powi (bitlen n - 1) \<le> of_int n"
    using ge1 by (simp add: power_int_nonneg_exp)
  have "(of_int n :: rat) < of_int (2 ^ nat (bitlen n))" using b by (simp only: of_int_less_iff)
  then show "of_int n < (2::rat) powi bitlen n"
    using ge1 by (simp add: power_int_nonneg_exp)
qed

lemma ilog2_bounds:
  assumes "0 < q"
  shows "2 powi ilog2 q \<le> q \<and> q < 2 powi (ilog2 q + 1)"
proof -
  obtain n d where nd: "quotient_of q = (n, d)" by (cases "quotient_of q")
  have dpos: "0 < d" using nd quotient_of_denom_pos by blast
  have q: "q = of_int n / of_int d" using nd quotient_of_div by blast
  have npos: "0 < n" using assms dpos q by (simp add: zero_less_divide_iff)
  define e where "e = bitlen n - bitlen d"
  have up: "q < 2 powi (e + 1)"
  proof -
    have "of_int n < (2::rat) powi bitlen n" using pow2_nat_bitlen(2)[OF npos] .
    moreover have "(2::rat) powi (bitlen d - 1) \<le> of_int d" using pow2_nat_bitlen(1)[OF dpos] .
    ultimately have "of_int n * (2::rat) powi (bitlen d - 1) < 2 powi bitlen n * of_int d"
      using dpos npos by (intro mult_less_le_imp_less) auto
    then have "q * 2 powi (bitlen d - 1) < (2::rat) powi bitlen n"
      using dpos by (simp add: q field_simps)
    then have "q < 2 powi bitlen n / 2 powi (bitlen d - 1)"
      by (simp add: pos_less_divide_eq)
    also have "\<dots> = 2 powi (e + 1)"
      by (simp add: e_def power_int_diff[symmetric] algebra_simps)
    finally show ?thesis .
  qed
  have lo: "2 powi (e - 1) \<le> q"
  proof -
    have "(2::rat) powi (bitlen n - 1) \<le> of_int n" using pow2_nat_bitlen(1)[OF npos] .
    moreover have "of_int d \<le> (2::rat) powi bitlen d" using pow2_nat_bitlen(2)[OF dpos] by simp
    ultimately have "(2::rat) powi (bitlen n - 1) * of_int d \<le> of_int n * 2 powi bitlen d"
      using dpos npos by (intro mult_mono) auto
    then have "(2::rat) powi (bitlen n - 1) \<le> q * 2 powi bitlen d"
      using dpos by (simp add: q field_simps)
    then have "(2::rat) powi (bitlen n - 1) / 2 powi bitlen d \<le> q"
      by (simp add: pos_divide_le_eq)
    moreover have "(2::rat) powi (bitlen n - 1) / 2 powi bitlen d = 2 powi (e - 1)"
      by (simp add: e_def power_int_diff[symmetric] algebra_simps)
    ultimately show ?thesis by simp
  qed
  have il: "ilog2 q = (if 2 powi e \<le> q then e else e - 1)"
    by (simp add: ilog2_def nd e_def Let_def)
  show ?thesis
  proof (cases "2 powi e \<le> q")
    case True
    then show ?thesis using up il by simp
  next
    case False
    then show ?thesis using lo il by simp
  qed
qed

lemma round_half_even_ge: "of_int N \<le> x \<Longrightarrow> N \<le> round_half_even x"
proof -
  assume "of_int N \<le> x"
  then have "N \<le> \<lfloor>x\<rfloor>" by (simp add: le_floor_iff)
  then show ?thesis by (auto simp: round_half_even_def Let_def)
qed

lemma round_half_even_le: "x \<le> of_int N \<Longrightarrow> round_half_even x \<le> N"
proof -
  assume a: "x \<le> of_int N"
  show ?thesis
  proof (cases "x = of_int N")
    case True
    then show ?thesis by (simp add: round_half_even_def Let_def)
  next
    case False
    then have "x < of_int N" using a by simp
    then have "\<lfloor>x\<rfloor> < N" by (simp add: floor_less_iff)
    then show ?thesis by (auto simp: round_half_even_def Let_def)
  qed
qed

text \<open>The rounded value of a positive rational, with its spacing made explicit.\<close>

lemma round64_pos:
  assumes "0 < q"
  shows "round64 q = of_int (round_half_even (q / 2 powi (max (ilog2 q) (- 1022) - 52)))
           * 2 powi (max (ilog2 q) (- 1022) - 52)"
  using assms by (simp add: round64_def Let_def)

lemma round64_minus: "round64 (- q) = - round64 q"
  by (simp add: round64_def Let_def)

lemma round64_lower:
  assumes lo: "- 1022 \<le> lo" and q1: "2 powi lo \<le> q"
  shows "2 powi lo \<le> round64 q"
proof -
  have qpos: "0 < q" using q1 zero_less_power_int[of "2::rat" lo] by linarith
  define e where "e = ilog2 q"
  have e1: "2 powi e \<le> q" and e2: "q < 2 powi (e + 1)"
    using ilog2_bounds[OF qpos] by (simp_all add: e_def)
  have "(2::rat) powi lo < 2 powi (e + 1)" using q1 e2 by linarith
  then have loe: "lo \<le> e"
    using power_int_increasing[of "e + 1" lo "2::rat"] by (cases "lo \<le> e") auto
  define u where "u = (2::rat) powi (e - 52)"
  have upos: "0 < u" by (simp add: u_def)
  have m: "max (ilog2 q) (- 1022) = e" using loe lo by (simp add: e_def)
  have r: "round64 q = of_int (round_half_even (q / u)) * u"
    by (simp only: round64_pos[OF qpos] m u_def)
  have pe: "(2::rat) powi e = of_int (2 ^ 52) * u"
    by (simp add: u_def power_int_diff)
  have "of_int (2 ^ 52) * u \<le> q" using e1 pe by simp
  then have "of_int (2 ^ 52) \<le> q / u" using upos by (simp only: pos_le_divide_eq)
  then have n1: "2 ^ 52 \<le> round_half_even (q / u)" by (rule round_half_even_ge)
  have "(2::rat) powi lo \<le> 2 powi e" using loe by (simp add: power_int_increasing)
  also have "\<dots> = of_int (2 ^ 52) * u" by (rule pe)
  also have "\<dots> \<le> of_int (round_half_even (q / u)) * u"
  proof (rule mult_right_mono)
    show "(of_int (2 ^ 52) :: rat) \<le> of_int (round_half_even (q / u))"
      using n1 by (simp only: of_int_le_iff)
    show "0 \<le> u" using upos by simp
  qed
  finally show ?thesis by (simp only: r)
qed

lemma round64_upper:
  assumes hi: "- 1022 \<le> hi" and qpos: "0 < q" and q2: "q \<le> 2 powi hi"
  shows "round64 q \<le> 2 powi hi"
proof -
  define e where "e = max (ilog2 q) (- 1022)"
  have e1: "2 powi ilog2 q \<le> q" using ilog2_bounds[OF qpos] by simp
  have "(2::rat) powi ilog2 q \<le> 2 powi hi" using e1 q2 by linarith
  then have "ilog2 q \<le> hi"
    using power_int_strict_increasing[of hi "ilog2 q" "2::rat"] by (cases "ilog2 q \<le> hi") auto
  then have ehi: "e \<le> hi" using hi by (simp add: e_def)
  define u where "u = (2::rat) powi (e - 52)"
  have upos: "0 < u" by (simp add: u_def)
  have r: "round64 q = of_int (round_half_even (q / u)) * u"
    by (simp only: round64_pos[OF qpos] e_def u_def)
  have "(2::rat) powi hi = 2 powi (hi - e + 52) * 2 powi (e - 52)"
    by (simp add: power_int_add[symmetric])
  also have "(2::rat) powi (hi - e + 52) = of_int (2 ^ nat (hi - e + 52))"
    using ehi by (simp add: power_int_nonneg_exp)
  finally have hu: "(2::rat) powi hi = of_int (2 ^ nat (hi - e + 52)) * u"
    by (simp only: u_def)
  have "q \<le> of_int (2 ^ nat (hi - e + 52)) * u" using q2 hu by simp
  then have "q / u \<le> of_int (2 ^ nat (hi - e + 52))" using upos by (simp only: pos_divide_le_eq)
  then have n2: "round_half_even (q / u) \<le> 2 ^ nat (hi - e + 52)"
    by (rule round_half_even_le)
  have "of_int (round_half_even (q / u)) * u \<le> of_int (2 ^ nat (hi - e + 52)) * u"
  proof (rule mult_right_mono)
    show "(of_int (round_half_even (q / u)) :: rat) \<le> of_int (2 ^ nat (hi - e + 52))"
      using n2 by (simp only: of_int_le_iff)
    show "0 \<le> u" using upos by simp
  qed
  also have "\<dots> = 2 powi hi" using hu by simp
  finally show ?thesis by (simp only: r)
qed

lemma round64_nonneg: "0 \<le> q \<Longrightarrow> 0 \<le> round64 q"
proof -
  assume a: "0 \<le> q"
  show ?thesis
  proof (cases "q = 0")
    case True
    then show ?thesis by (simp add: round64_def)
  next
    case False
    then have qpos: "0 < q" using a by simp
    have "0 \<le> \<lfloor>q / 2 powi (max (ilog2 q) (- 1022) - 52)\<rfloor>"
      using qpos by (simp add: zero_le_divide_iff)
    then have "0 \<le> round_half_even (q / 2 powi (max (ilog2 q) (- 1022) - 52))"
      using round_half_even_ge[of 0] qpos by (simp add: zero_le_divide_iff)
    then show ?thesis
      by (simp only: round64_pos[OF qpos]) (simp add: zero_le_mult_iff)
  qed
qed

lemma round64_overflow_iff:
  assumes apos: "0 < a"
  shows "2 powi 1024 \<le> round64 a \<longleftrightarrow>
         (1024 \<le> ilog2 a \<or> (ilog2 a = 1023 \<and> round_half_even (a / 2 powi 971) = 2 ^ 53))"
proof -
  define e where "e = ilog2 a"
  have e1: "2 powi e \<le> a" and e2: "a < 2 powi (e + 1)"
    using ilog2_bounds[OF apos] by (simp_all add: e_def)
  consider (big) "1024 \<le> e" | (edge) "e = 1023" | (small) "e \<le> 1022" by linarith
  then show ?thesis
  proof cases
    case big
    have "(2::rat) powi 1024 \<le> 2 powi e" using big by (intro power_int_increasing) auto
    then have "2 powi 1024 \<le> a" using e1 by linarith
    then have "2 powi 1024 \<le> round64 a" by (intro round64_lower) auto
    then show ?thesis using big by (simp only: e_def[symmetric]) simp
  next
    case edge
    define u where "u = (2::rat) powi 971"
    define n where "n = round_half_even (a / u)"
    have upos: "0 < u" by (simp add: u_def)
    have m: "max (ilog2 a) (- 1022) - 52 = 971" using edge by (simp add: e_def)
    have r: "round64 a = of_int n * u"
      by (simp only: round64_pos[OF apos] m u_def n_def)
    have top: "(2::rat) powi 1024 = of_int (2 ^ 53) * u"
    proof -
      have "(2::rat) powi 1024 = 2 powi (53 + 971)" by simp
      also have "\<dots> = 2 powi 53 * 2 powi 971" by (rule power_int_add) simp
      finally show ?thesis by (simp add: u_def)
    qed
    have "a < of_int (2 ^ 53) * u" using e2 edge top by simp
    then have "a / u \<le> of_int (2 ^ 53)" using upos by (simp only: pos_divide_le_eq)
    then have nle: "n \<le> 2 ^ 53" unfolding n_def by (rule round_half_even_le)
    have "2 powi 1024 \<le> round64 a \<longleftrightarrow> (of_int (2 ^ 53) :: rat) * u \<le> of_int n * u"
      by (simp only: r top)
    also have "\<dots> \<longleftrightarrow> (of_int (2 ^ 53) :: rat) \<le> of_int n"
      using upos by (simp only: mult_le_cancel_right_pos)
    also have "\<dots> \<longleftrightarrow> 2 ^ 53 \<le> n" by (simp only: of_int_le_iff)
    also have "\<dots> \<longleftrightarrow> n = 2 ^ 53" using nle by linarith
    finally show ?thesis using edge by (simp only: e_def[symmetric] n_def u_def) simp
  next
    case small
    have "(2::rat) powi (e + 1) \<le> 2 powi 1023" using small by (intro power_int_increasing) auto
    then have "a \<le> 2 powi 1023" using e2 by linarith
    then have "round64 a \<le> 2 powi 1023" using apos by (intro round64_upper) auto
    moreover have "(2::rat) powi 1023 < 2 powi 1024" by (intro power_int_strict_increasing) auto
    ultimately have "\<not> 2 powi 1024 \<le> round64 a" by linarith
    then show ?thesis using small by (simp only: e_def[symmetric]) simp
  qed
qed

lemma float_result_code [code]:
  "float_result q = (if q = 0 then Fin 0
     else if overflows \<bar>q\<bar> then (if 0 < q then PInf else NInf)
     else Fin (round64 q))"
proof (cases "q = 0")
  case True
  have "round64 0 = 0" by (simp add: round64_def)
  then have "float_result 0 = Fin 0" by (simp add: float_result_def)
  then show ?thesis using True by simp
next
  case False
  have ov: "overflows \<bar>q\<bar> \<longleftrightarrow> 2 powi 1024 \<le> round64 \<bar>q\<bar>"
    using False round64_overflow_iff[of "\<bar>q\<bar>"] by (auto simp: overflows_def Let_def)
  have M: "(0::rat) < 2 powi 1024" by simp
  show ?thesis
  proof (cases "0 < q")
    case True
    then have a: "\<bar>q\<bar> = q" by simp
    have "0 \<le> round64 q" using True by (intro round64_nonneg) simp
    then have "\<not> round64 q \<le> - (2 powi 1024)" using M by linarith
    then show ?thesis using False True ov
      by (simp only: float_result_def Let_def a if_True if_False split: if_splits)
  next
    case neg: False
    then have qneg: "q < 0" using False by simp
    then have a: "\<bar>q\<bar> = - q" by simp
    have rm: "round64 q = - round64 (- q)" using round64_minus[of "- q"] by simp
    have "0 \<le> round64 (- q)" using qneg by (intro round64_nonneg) simp
    then have n1: "\<not> 2 powi 1024 \<le> round64 q" using M rm by linarith
    have n2: "round64 q \<le> - (2 powi 1024) \<longleftrightarrow> 2 powi 1024 \<le> round64 (- q)"
      using rm by linarith
    show ?thesis using False neg ov n1 n2
      by (simp only: float_result_def Let_def a if_True if_False split: if_splits)
  qed
qed

lemma ilog2_unique:
  assumes "2 powi k \<le> q" and "q < 2 powi (k + 1)"
  shows "ilog2 q = k"
proof -
  have qpos: "0 < q" using assms(1) zero_less_power_int[of "2::rat" k] by linarith
  have e1: "2 powi ilog2 q \<le> q" and e2: "q < 2 powi (ilog2 q + 1)"
    using ilog2_bounds[OF qpos] by simp_all
  have "(2::rat) powi k < 2 powi (ilog2 q + 1)" using assms(1) e2 by linarith
  then have a: "k \<le> ilog2 q"
    using power_int_increasing[of "ilog2 q + 1" k "2::rat"] by (cases "k \<le> ilog2 q") auto
  have "(2::rat) powi ilog2 q < 2 powi (k + 1)" using assms(2) e1 by linarith
  then have b: "ilog2 q \<le> k"
    using power_int_increasing[of "k + 1" "ilog2 q" "2::rat"] by (cases "ilog2 q \<le> k") auto
  show ?thesis using a b by simp
qed

lemma round_half_even_of_int: "round_half_even (of_int n) = n"
  by (simp add: round_half_even_def)

text \<open>A normal binary64 value, a 53-bit significand times a power of two, is its own rounding.\<close>

lemma round64_normal:
  assumes n1: "2 ^ 52 \<le> n" and n2: "n < 2 ^ 53" and k: "- 1022 \<le> k"
  shows "round64 (of_int n * 2 powi (k - 52)) = of_int n * 2 powi (k - 52)"
proof -
  define u where "u = (2::rat) powi (k - 52)"
  have upos: "0 < u" by (simp add: u_def)
  have lo: "(2::rat) powi k = of_int (2 ^ 52) * u" by (simp add: u_def power_int_diff)
  have hi: "(2::rat) powi (k + 1) = of_int (2 ^ 53) * u"
  proof -
    have "k + 1 = 53 + (k - 52)" by simp
    then have "(2::rat) powi (k + 1) = 2 powi (53 + (k - 52))" by (simp only:)
    also have "\<dots> = 2 powi 53 * 2 powi (k - 52)" by (rule power_int_add) simp
    finally show ?thesis by (simp add: u_def)
  qed
  have "(of_int (2 ^ 52) :: rat) \<le> of_int n" using n1 by (simp only: of_int_le_iff)
  then have a: "2 powi k \<le> of_int n * u" using upos lo by (simp add: mult_right_mono)
  have "(of_int n :: rat) < of_int (2 ^ 53)" using n2 by (simp only: of_int_less_iff)
  then have b: "of_int n * u < 2 powi (k + 1)" using upos hi by (simp add: mult_strict_right_mono)
  have e: "ilog2 (of_int n * u) = k" using a b by (rule ilog2_unique)
  have pos: "0 < of_int n * u" using a zero_less_power_int[of "2::rat" k] by linarith
  have m: "max (ilog2 (of_int n * u)) (- 1022) - 52 = k - 52" using e k by simp
  have "round64 (of_int n * u) =
      of_int (round_half_even (of_int n * u / 2 powi (max (ilog2 (of_int n * u)) (- 1022) - 52)))
        * 2 powi (max (ilog2 (of_int n * u)) (- 1022) - 52)"
    using pos by (rule round64_pos)
  also have "\<dots> = of_int (round_half_even (of_int n * u / u)) * u"
    unfolding m by (simp only: u_def)
  also have "of_int n * u / u = of_int n" using upos by simp
  finally show ?thesis by (simp only: round_half_even_of_int u_def)
qed

text \<open>The rounding of a rational in the normal range is a normal binary64 value.\<close>

lemma round64_is_normal:
  assumes lo: "- 1022 \<le> lo" and q1: "2 powi lo \<le> q"
  shows "\<exists>n k. round64 q = of_int n * 2 powi (k - 52) \<and> 2 ^ 52 \<le> n \<and> n < 2 ^ 53 \<and> lo \<le> k"
proof -
  have qpos: "0 < q" using q1 zero_less_power_int[of "2::rat" lo] by linarith
  define e where "e = ilog2 q"
  have e1: "2 powi e \<le> q" and e2: "q < 2 powi (e + 1)"
    using ilog2_bounds[OF qpos] by (simp_all add: e_def)
  have "(2::rat) powi lo < 2 powi (e + 1)" using q1 e2 by linarith
  then have loe: "lo \<le> e"
    using power_int_increasing[of "e + 1" lo "2::rat"] by (cases "lo \<le> e") auto
  define u where "u = (2::rat) powi (e - 52)"
  have upos: "0 < u" by (simp add: u_def)
  define n where "n = round_half_even (q / u)"
  have m: "max (ilog2 q) (- 1022) = e" using loe lo by (simp add: e_def)
  have r: "round64 q = of_int n * u"
    by (simp only: round64_pos[OF qpos] m u_def n_def)
  have pe: "(2::rat) powi e = of_int (2 ^ 52) * u"
    by (simp add: u_def power_int_diff)
  have "of_int (2 ^ 52) * u \<le> q" using e1 pe by simp
  then have "of_int (2 ^ 52) \<le> q / u" using upos by (simp only: pos_le_divide_eq)
  then have n1: "2 ^ 52 \<le> n" unfolding n_def by (rule round_half_even_ge)
  have pe1: "(2::rat) powi (e + 1) = of_int (2 ^ 53) * u"
  proof -
    have "e + 1 = 53 + (e - 52)" by simp
    then have "(2::rat) powi (e + 1) = 2 powi (53 + (e - 52))" by (simp only:)
    also have "\<dots> = 2 powi 53 * 2 powi (e - 52)" by (rule power_int_add) simp
    finally show ?thesis by (simp add: u_def)
  qed
  have "q \<le> of_int (2 ^ 53) * u" using e2 pe1 by simp
  then have "q / u \<le> of_int (2 ^ 53)" using upos by (simp only: pos_divide_le_eq)
  then have n2: "n \<le> 2 ^ 53" unfolding n_def by (rule round_half_even_le)
  show ?thesis
  proof (cases "n = 2 ^ 53")
    case True
    have "round64 q = of_int (2 ^ 52) * 2 powi (e + 1 - 52)"
    proof -
      have "round64 q = 2 powi (e + 1)" using r True pe1 by simp
      also have "\<dots> = 2 powi (52 + (e + 1 - 52))"
      proof -
        have "e + 1 = 52 + (e + 1 - 52)" by simp
        then show ?thesis by (simp only:)
      qed
      also have "\<dots> = 2 powi 52 * 2 powi (e + 1 - 52)" by (rule power_int_add) simp
      finally show ?thesis by simp
    qed
    moreover have "(2::int) ^ 52 \<le> 2 ^ 52 \<and> (2::int) ^ 52 < 2 ^ 53 \<and> lo \<le> e + 1"
      using loe by simp
    ultimately show ?thesis by blast
  next
    case False
    then have "n < 2 ^ 53" using n2 by simp
    then show ?thesis using r n1 loe unfolding u_def by blast
  qed
qed

lemma round64_half_exact:
  assumes lo: "- 1021 \<le> lo" and q1: "2 powi lo \<le> q"
  shows "round64 (round64 q / 2) = round64 q / 2"
proof -
  have "- 1022 \<le> lo" using lo by simp
  from round64_is_normal[OF this q1] obtain n k where
    r: "round64 q = of_int n * 2 powi (k - 52)" and n: "2 ^ 52 \<le> n" "n < 2 ^ 53" and k: "lo \<le> k"
    by blast
  have "k - 52 = 1 + (k - 1 - 52)" by simp
  then have "(2::rat) powi (k - 52) = 2 powi (1 + (k - 1 - 52))" by (simp only:)
  also have "\<dots> = 2 powi 1 * 2 powi (k - 1 - 52)" by (rule power_int_add) simp
  finally have "(2::rat) powi (k - 52) / 2 = 2 powi (k - 1 - 52)" by simp
  then have h: "round64 q / 2 = of_int n * 2 powi (k - 1 - 52)" using r by simp
  have "- 1022 \<le> k - 1" using lo k by simp
  then have "round64 (of_int n * 2 powi (k - 1 - 52)) = of_int n * 2 powi (k - 1 - 52)"
    using n by (intro round64_normal) auto
  then show ?thesis using h by simp
qed

lemma round64_of_int_exact:
  assumes "0 < c" and "c < 2 ^ 53"
  shows "round64 (of_int c) = of_int c"
proof -
  define b where "b = bitlen c"
  have b1: "1 \<le> b" using assms(1) bitlen_eq_zero_iff[of c] bitlen_nonneg[of c] by (simp add: b_def)
  have b53: "b \<le> 53" using assms(2) bitlen_le_iff_power[of c 53] by (simp add: b_def)
  have lo: "2 ^ nat (b - 1) \<le> c" and hi: "c < 2 ^ nat b"
    using bitlen_bounds[OF assms(1)] by (simp_all add: b_def)
  define s where "s = nat (53 - b)"
  define n where "n = c * 2 ^ s"
  have sb: "nat (b - 1) + s = 52" using b1 b53 by (simp add: s_def)
  have sb': "nat b + s = 53" using b1 b53 by (simp add: s_def)
  have n1: "2 ^ 52 \<le> n"
  proof -
    have "(2::int) ^ 52 = 2 ^ nat (b - 1) * 2 ^ s" using sb by (simp add: power_add[symmetric])
    also have "\<dots> \<le> c * 2 ^ s" using lo by (simp add: mult_right_mono)
    finally show ?thesis by (simp add: n_def)
  qed
  have n2: "n < 2 ^ 53"
  proof -
    have "c * 2 ^ s < 2 ^ nat b * 2 ^ s" using hi by (simp add: mult_strict_right_mono)
    also have "\<dots> = (2::int) ^ 53" using sb' by (simp add: power_add[symmetric])
    finally show ?thesis by (simp add: n_def)
  qed
  have k: "- 1022 \<le> b - 1" using b1 by simp
  have "(b - 1) - 52 = - int s" using b1 b53 by (simp add: s_def)
  then have "(2::rat) powi ((b - 1) - 52) = 1 / 2 ^ s"
    by (simp add: power_int_minus_divide)
  then have "of_int n * (2::rat) powi ((b - 1) - 52) = of_int c"
    by (simp add: n_def)
  moreover have "round64 (of_int n * 2 powi ((b - 1) - 52)) = of_int n * 2 powi ((b - 1) - 52)"
    using n1 n2 k by (rule round64_normal)
  ultimately show ?thesis by simp
qed

lemma float_result_in_range:
  assumes lo: "- 1022 \<le> lo" and hi: "hi \<le> 1023" and q1: "2 powi lo \<le> q" and q2: "q \<le> 2 powi hi"
  shows "float_result q = Fin (round64 q) \<and> 2 powi lo \<le> round64 q \<and> round64 q \<le> 2 powi hi"
proof -
  have qpos: "0 < q" using q1 zero_less_power_int[of "2::rat" lo] by linarith
  have "(2::rat) powi lo \<le> 2 powi hi" using q1 q2 by linarith
  then have "lo \<le> hi"
    using power_int_strict_increasing[of hi lo "2::rat"] by (cases "lo \<le> hi") auto
  then have hi': "- 1022 \<le> hi" using lo by linarith
  have A: "2 powi lo \<le> round64 q" using lo q1 by (rule round64_lower)
  have B: "round64 q \<le> 2 powi hi" using hi' qpos q2 by (rule round64_upper)
  have "(2::rat) powi hi < 2 powi 1024" using hi by (intro power_int_strict_increasing) auto
  then have C: "\<not> 2 powi 1024 \<le> round64 q" using B by linarith
  have "0 < round64 q" using A zero_less_power_int[of "2::rat" lo] by linarith
  moreover have "(0::rat) < 2 powi 1024" by (rule zero_less_power_int) simp
  ultimately have D: "\<not> round64 q \<le> - (2 powi 1024)" by linarith
  have "float_result q = Fin (round64 q)"
    using C D by (simp only: float_result_def Let_def if_False)
  then show ?thesis using A B by simp
qed

lemma quotient_range:
  fixes x y :: rat
  assumes "2 powi l1 \<le> x" "x \<le> 2 powi h1" "2 powi l2 \<le> y" "y \<le> 2 powi h2"
  shows "2 powi (l1 - h2) \<le> x / y \<and> x / y \<le> 2 powi (h1 - l2)"
proof -
  have xpos: "0 < x" using assms(1) zero_less_power_int[of "2::rat" l1] by linarith
  have ypos: "0 < y" using assms(3) zero_less_power_int[of "2::rat" l2] by linarith
  have "2 powi l1 / 2 powi h2 \<le> x / y"
    using assms(1,4) xpos ypos by (intro frac_le) auto
  moreover have "x / y \<le> 2 powi h1 / 2 powi l2"
    using assms(2,3) xpos ypos by (intro frac_le) auto
  ultimately show ?thesis by (simp add: power_int_diff)
qed

lemma int_range:
  assumes "0 < (n::int)" "n < 2 ^ 500"
  shows "(2::rat) powi 0 \<le> of_int n \<and> (of_int n :: rat) \<le> 2 powi 500"
proof -
  have "(1::rat) \<le> of_int n" using assms(1) by simp
  moreover have "(of_int n :: rat) \<le> of_int (2 ^ 500)" using assms(2) by (simp only: of_int_le_iff)
  ultimately show ?thesis by simp
qed

lemma calculate_in_range:
  assumes w: "width self = Some W" and h: "height self = Some H"
    and W: "0 < W" "W < 2 ^ 500" and H: "0 < H" "H < 2 ^ 500"
    and C: "0 < terminal_width self" "terminal_width self < 2 ^ 53"
  shows "calculate_terminal_dimensions self =
           Inr ((terminal_width self, binary64_rows W H (terminal_width self)),
                self\<lparr>terminal_height := Some (binary64_rows W H (terminal_width self))\<rparr>)"
proof -
  define Cw where "Cw = terminal_width self"
  define a where "a = round64 (of_int W / of_int H)"
  define c where "c = round64 (of_int Cw)"
  define q where "q = round64 (c / a)"
  define q2 where "q2 = round64 (q / 2)"
  have C500: "Cw < 2 ^ 500" using C(2) by (simp add: Cw_def)
  have Cpos: "0 < Cw" using C(1) by (simp add: Cw_def)
  note Wr = int_range[OF W] and Hr = int_range[OF H] and Cr = int_range[OF Cpos C500]
  have WH: "2 powi (0 - 500) \<le> (of_int W :: rat) / of_int H \<and> (of_int W :: rat) / of_int H \<le> 2 powi (500 - 0)"
    using Wr Hr by (intro quotient_range) auto
  have A: "float_result (of_int W / of_int H) = Fin a \<and> 2 powi (- 500) \<le> a \<and> a \<le> 2 powi 500"
    unfolding a_def using WH by (intro float_result_in_range) auto
  have Cc: "float_result (of_int Cw) = Fin c \<and> 2 powi 0 \<le> c \<and> c \<le> 2 powi 500"
    unfolding c_def using Cr by (intro float_result_in_range) auto
  have cC: "c = of_int Cw"
    unfolding c_def using Cpos C(2) by (intro round64_of_int_exact) (simp_all add: Cw_def)
  have ca: "2 powi (0 - 500) \<le> c / a \<and> c / a \<le> 2 powi (500 - (- 500))"
    using A Cc by (intro quotient_range) auto
  have Q: "float_result (c / a) = Fin q \<and> 2 powi (- 500) \<le> q \<and> q \<le> 2 powi 1000"
    unfolding q_def using ca by (intro float_result_in_range) auto
  have two: "(2::rat) powi 1 \<le> 2 \<and> (2::rat) \<le> 2 powi 1" by simp
  have q2r: "2 powi (- 500 - 1) \<le> q / 2 \<and> q / 2 \<le> 2 powi (1000 - 1)"
    using Q two by (intro quotient_range) auto
  have Q2: "float_result (q / 2) = Fin q2 \<and> 2 powi (- 501) \<le> q2 \<and> q2 \<le> 2 powi 999"
    unfolding q2_def using q2r by (intro float_result_in_range) auto
  have half: "q2 = q / 2"
    unfolding q2_def q_def using ca by (intro round64_half_exact[of "- 500"]) auto
  have apos: "0 < a" using A zero_less_power_int[of "2::rat" "- 500"] by linarith
  have q2pos: "0 \<le> q2" using Q2 zero_less_power_int[of "2::rat" "- 501"] by linarith
  have s1: "int_truediv W H = Inr (Fin a)"
    using A H by (simp add: int_truediv_def)
  have s2: "float_of_int Cw = Inr (Fin c)"
    using Cc by (simp add: float_of_int_def)
  have s3: "float_truediv (Fin c) (Fin a) = Inr (Fin q)"
    using Q apos by (simp add: float_truediv_def)
  have s4: "float_truediv (Fin q) (Fin 2) = Inr (Fin q2)"
    using Q2 by (simp add: float_truediv_def)
  have s5: "int_of_float (Fin q2) = Inr \<lfloor>q2\<rfloor>"
    using q2pos by (simp add: int_of_float_def)
  have "q = round64 (of_int Cw / a)" by (simp only: q_def cC)
  then have rows: "binary64_rows W H Cw =
      max 2 (if \<lfloor>q2\<rfloor> mod 2 \<noteq> 0 then \<lfloor>q2\<rfloor> - 1 else \<lfloor>q2\<rfloor>)"
    by (simp add: binary64_rows_def Let_def a_def half odd_iff_mod_2_eq_one)
  have nf: "\<not> (falsy (width self) \<or> falsy (height self))"
    using w h W H by (simp add: falsy_def)
  show ?thesis
    unfolding calculate_terminal_dimensions_def
    using nf by (simp add: w h Cw_def[symmetric] s1 s2 s3 s4 s5 rows bind_err_def Let_def)
qed

lemma even_clamp_odd: "(t::int) mod 2 = 1 \<Longrightarrow> even (max 2 (t - 1))"
proof -
  assume "t mod 2 = 1"
  then have "odd t" by presburger
  then have "even (t - 1)" by simp
  then show ?thesis by (simp add: max_def)
qed

lemma even_clamp_even: "even (t::int) \<Longrightarrow> even (max 2 t)"
  by (simp add: max_def)

lemma calculate_result_even:
  assumes "calculate_terminal_dimensions self = Inr ((c, r), s')"
  shows "c = terminal_width self \<and> even r \<and> 2 \<le> r"
  using assms
  by (auto simp: calculate_terminal_dimensions_def bind_err_def Let_def
                 even_clamp_odd even_clamp_even
           split: if_splits option.splits sum.splits)

lemma float_result_nonneg:
  assumes "0 \<le> q" and "q \<le> 2 powi 1023"
  shows "float_result q = Fin (round64 q) \<and> 0 \<le> round64 q"
proof -
  have nn: "0 \<le> round64 q" using assms(1) by (rule round64_nonneg)
  have up: "round64 q \<le> 2 powi 1023"
  proof (cases "q = 0")
    case True
    then show ?thesis by (simp add: round64_def)
  next
    case False
    then have "0 < q" using assms(1) by simp
    then show ?thesis using assms(2) by (intro round64_upper) auto
  qed
  have "(2::rat) powi 1023 < 2 powi 1024" by (intro power_int_strict_increasing) auto
  then have C: "\<not> 2 powi 1024 \<le> round64 q" using up by linarith
  have "(0::rat) < 2 powi 1024" by (rule zero_less_power_int) simp
  then have D: "\<not> round64 q \<le> - (2 powi 1024)" using nn by linarith
  have "float_result q = Fin (round64 q)"
    using C D by (simp only: float_result_def Let_def if_False)
  then show ?thesis using nn by simp
qed

lemma float_result_Fin: "float_result q = Fin r \<Longrightarrow> r = round64 q"
  by (simp only: float_result_def Let_def split: if_splits) simp_all

section \<open>Dimension calculator\<close>

text \<open>
  C2, as amended. For a source width and a source height between 1 and \<open>2 ^ 500\<close> and a
  column count between 1 and \<open>2 ^ 53\<close>, the dimension calculator returns the column count
  and the row count \<open>binary64_rows\<close>: the aspect ratio \<open>a = W/H\<close> and the quotient \<open>C / a\<close>
  are binary64 divisions, each rounded to the nearest float; the floor of half the
  rounded quotient is decremented if odd and clamped to at least 2. It stores that row
  count in the object.
\<close>

theorem calculate_terminal_dimensions_binary64:
  assumes "width self = Some W" and "height self = Some H"
    and "0 < W" and "W < 2 ^ 500" and "0 < H" and "H < 2 ^ 500"
    and "0 < terminal_width self" and "terminal_width self < 2 ^ 53"
  shows "calculate_terminal_dimensions self =
           Inr ((terminal_width self, binary64_rows W H (terminal_width self)),
                self\<lparr>terminal_height := Some (binary64_rows W H (terminal_width self))\<rparr>)"
  using assms by (rule calculate_in_range)

text \<open>The instance of the specification: 1920 by 1080 at 80 columns gives 22 rows.\<close>

theorem calculate_terminal_dimensions_binary64_witness:
  "calculate_terminal_dimensions
     \<lparr>video_path = [], terminal_width = 80, fps = None, width = Some 1920,
      height = Some 1080, frame_count = None, terminal_height = None\<rparr>
   = Inr ((80, 22),
     \<lparr>video_path = [], terminal_width = 80, fps = None, width = Some 1920,
      height = Some 1080, frame_count = None, terminal_height = Some 22\<rparr>)"
proof -
  have rows: "binary64_rows 1920 1080 80 = 22" by code_simp
  have "calculate_terminal_dimensions
     \<lparr>video_path = [], terminal_width = 80, fps = None, width = Some 1920,
      height = Some 1080, frame_count = None, terminal_height = None\<rparr>
   = Inr ((80, binary64_rows 1920 1080 80),
     \<lparr>video_path = [], terminal_width = 80, fps = None, width = Some 1920,
      height = Some 1080, frame_count = None,
      terminal_height = Some (binary64_rows 1920 1080 80)\<rparr>)"
    using calculate_terminal_dimensions_binary64
      [of "\<lparr>video_path = [], terminal_width = 80, fps = None, width = Some 1920,
            height = Some 1080, frame_count = None, terminal_height = None\<rparr>" 1920 1080]
    by simp
  then show ?thesis by (simp only: rows)
qed

text \<open>
  C2 as the specification states it, with exact division, fails: for a 352 by 288 video
  at 132 columns the exact formula gives \<open>floor(132 / (352/288) / 2) = 54\<close> rows, and
  the calculator returns 52, because the float quotient \<open>132 / 1.2222222222222223\<close> is
  \<open>107.99999999999999\<close>, whose half truncates to 53.
\<close>

theorem calculate_terminal_dimensions_exact_counterexample:
  "calculate_terminal_dimensions
     \<lparr>video_path = [], terminal_width = 132, fps = None, width = Some 352,
      height = Some 288, frame_count = None, terminal_height = None\<rparr>
   = Inr ((132, 52),
     \<lparr>video_path = [], terminal_width = 132, fps = None, width = Some 352,
      height = Some 288, frame_count = None, terminal_height = Some 52\<rparr>)
   \<and> spec_rows 352 288 132 = 54"
  by code_simp

text \<open>
  C3. For a positive source width, source height and column count, every row count that
  the dimension calculator returns is even and at least 2; and when the width and the
  height are below \<open>2 ^ 500\<close> and the column count below \<open>2 ^ 53\<close> the calculator does
  return one.
\<close>

theorem terminal_rows_even_at_least_two:
  assumes "width self = Some W" and "height self = Some H"
    and "0 < W" and "0 < H" and "0 < terminal_width self"
  shows "(\<forall>c r s'. calculate_terminal_dimensions self = Inr ((c, r), s')
            \<longrightarrow> even r \<and> 2 \<le> r)
       \<and> (W < 2 ^ 500 \<and> H < 2 ^ 500 \<and> terminal_width self < 2 ^ 53 \<longrightarrow>
            (\<exists>r. calculate_terminal_dimensions self =
                    Inr ((terminal_width self, r), self\<lparr>terminal_height := Some r\<rparr>)
                  \<and> even r \<and> 2 \<le> r))"
proof (rule conjI)
  show "\<forall>c r s'. calculate_terminal_dimensions self = Inr ((c, r), s')
            \<longrightarrow> even r \<and> 2 \<le> r"
    using calculate_result_even by blast
next
  show "W < 2 ^ 500 \<and> H < 2 ^ 500 \<and> terminal_width self < 2 ^ 53 \<longrightarrow>
            (\<exists>r. calculate_terminal_dimensions self =
                    Inr ((terminal_width self, r), self\<lparr>terminal_height := Some r\<rparr>)
                  \<and> even r \<and> 2 \<le> r)"
  proof (rule impI)
    assume b: "W < 2 ^ 500 \<and> H < 2 ^ 500 \<and> terminal_width self < 2 ^ 53"
    let ?r = "binary64_rows W H (terminal_width self)"
    have eq: "calculate_terminal_dimensions self =
        Inr ((terminal_width self, ?r), self\<lparr>terminal_height := Some ?r\<rparr>)"
      using assms b by (intro calculate_in_range) auto
    then have "even ?r \<and> 2 \<le> ?r" using calculate_result_even by blast
    then show "\<exists>r. calculate_terminal_dimensions self =
                      Inr ((terminal_width self, r), self\<lparr>terminal_height := Some r\<rparr>)
                    \<and> even r \<and> 2 \<le> r"
      using eq by blast
  qed
qed

theorem terminal_rows_even_at_least_two_witness:
  "\<exists>r. calculate_terminal_dimensions
          \<lparr>video_path = [], terminal_width = 100, fps = None, width = Some 1280,
           height = Some 720, frame_count = None, terminal_height = None\<rparr>
        = Inr ((100, r),
          \<lparr>video_path = [], terminal_width = 100, fps = None, width = Some 1280,
           height = Some 720, frame_count = None, terminal_height = Some r\<rparr>)
      \<and> even r \<and> 2 \<le> r"
  using terminal_rows_even_at_least_two
    [of "\<lparr>video_path = [], terminal_width = 100, fps = None, width = Some 1280,
          height = Some 720, frame_count = None, terminal_height = None\<rparr>" 1280 720]
  by simp

text \<open>
  C10. When the stored width or height is unset or zero, the dimension calculator raises
  the ValueError of line 95; and it never raises the ZeroDivisionError of an integer
  division, so \<open>W/H\<close> is never a division by zero.
\<close>

theorem calculate_guards_division:
  "(width self = None \<or> width self = Some 0 \<or> height self = None \<or> height self = Some 0
      \<longrightarrow> calculate_terminal_dimensions self =
            Inl (ValueError (ascii ''Video dimensions not set - call get_video_metadata first'')))
   \<and> calculate_terminal_dimensions self \<noteq> Inl (ZeroDivisionError ''division by zero'')"
proof (intro conjI impI)
  assume "width self = None \<or> width self = Some 0 \<or> height self = None \<or> height self = Some 0"
  then have "falsy (width self) \<or> falsy (height self)" by (auto simp: falsy_def)
  then show "calculate_terminal_dimensions self =
        Inl (ValueError (ascii ''Video dimensions not set - call get_video_metadata first''))"
    by (simp add: calculate_terminal_dimensions_def)
next
  show "calculate_terminal_dimensions self \<noteq> Inl (ZeroDivisionError ''division by zero'')"
    by (auto simp: calculate_terminal_dimensions_def bind_err_def Let_def falsy_def
                   int_truediv_def float_of_int_def float_truediv_def int_of_float_def
             split: if_splits option.splits sum.splits pyfloat.splits)
qed

theorem calculate_guards_division_witness:
  "calculate_terminal_dimensions
     \<lparr>video_path = [], terminal_width = 80, fps = None, width = Some 1920,
      height = Some 0, frame_count = None, terminal_height = None\<rparr>
   = Inl (ValueError (ascii ''Video dimensions not set - call get_video_metadata first''))"
  using calculate_guards_division
    [of "\<lparr>video_path = [], terminal_width = 80, fps = None, width = Some 1920,
          height = Some 0, frame_count = None, terminal_height = None\<rparr>"]
  by simp

section \<open>Playback command\<close>

text \<open>
  The strings of the paths \<open>//srv/video.zst\<close>, \<open>/srv/video.zst\<close>, \<open>out/video.zst\<close> and of the
  path without parts.
\<close>

lemma str_of_path_examples:
  "str_of_path [ascii ''//'', ascii ''srv'', ascii ''video.zst''] = ascii ''//srv/video.zst''"
  "str_of_path [ascii ''/'', ascii ''srv'', ascii ''video.zst''] = ascii ''/srv/video.zst''"
  "str_of_path [ascii ''out'', ascii ''video.zst''] = ascii ''out/video.zst''"
  "str_of_path [] = ascii ''.''"
  by (simp_all add: str_of_path_def join_parts_def ascii_def)

text \<open>
  C5, as amended. For every output path, every frame rate \<open>f\<close> and average frame size
  \<open>s\<close> that are non-negative floats with a product of at most \<open>2 powi 1023\<close>, the playback
  command generator computes \<open>bytes_per_second = int(s * f)\<close>, the float product
  truncated to an integer (its floor, not the nearest integer), and returns the pipeline
  \<open>cat <path> | zstd -d | pv -q -L <bytes_per_second>\<close>.
\<close>

theorem generate_playback_command_truncates:
  assumes "0 \<le> s" and "0 \<le> f" and "s * f \<le> 2 powi 1023"
  shows "generate_playback_command p (Fin f) (PyFloat (Fin s)) =
           Inr (ascii ''cat '' @ str_of_path p @ ascii '' | zstd -d | pv -q -L ''
                @ str_int \<lfloor>round64 (s * f)\<rfloor>)"
proof -
  have "0 \<le> s * f" using assms(1,2) by simp
  then have "float_result (s * f) = Fin (round64 (s * f)) \<and> 0 \<le> round64 (s * f)"
    using assms(3) by (rule float_result_nonneg)
  then show ?thesis
    by (simp add: generate_playback_command_def num_mul_float_def bind_err_def int_of_float_def)
qed

text \<open>
  Four frames of 1000, 1001, 1001 and 1001 bytes at 29 frames per second, written to
  \<open>//srv/video.zst\<close>, a path with the two-slash root: the product 29021.75 gives 29021
  bytes per second, and the path is printed as pathlib prints it.
\<close>

theorem generate_playback_command_truncates_witness:
  "generate_playback_command [ascii ''//'', ascii ''srv'', ascii ''video.zst''] (Fin 29)
       (PyFloat (Fin (4003 / 4)))
     = Inr (ascii ''cat //srv/video.zst | zstd -d | pv -q -L 29021'')"
proof -
  have rate: "\<lfloor>round64 (4003 / 4 * 29)\<rfloor> = 29021" by code_simp
  have "generate_playback_command [ascii ''//'', ascii ''srv'', ascii ''video.zst''] (Fin 29)
       (PyFloat (Fin (4003 / 4)))
     = Inr (ascii ''cat '' @ str_of_path [ascii ''//'', ascii ''srv'', ascii ''video.zst'']
            @ ascii '' | zstd -d | pv -q -L '' @ str_int \<lfloor>round64 (4003 / 4 * 29)\<rfloor>)"
    by (rule generate_playback_command_truncates) simp_all
  then show ?thesis
    unfolding rate by (simp add: str_int_def digits.simps ascii_def str_of_path_def join_parts_def)
qed

text \<open>
  C5 as the specification states it, with \<open>round\<close>, fails: for four frames of 1000,
  1001, 1001 and 1001 bytes (average 1000.75) at 25 frames per second the product is
  25018.75; the code prints 25018, the nearest integer is 25019.
\<close>

theorem generate_playback_command_round_counterexample:
  "generate_playback_command [ascii ''video.zst''] (Fin 25) (PyFloat (Fin (4003 / 4)))
     = Inr (ascii ''cat video.zst | zstd -d | pv -q -L 25018'')
   \<and> spec_generate_playback_command [ascii ''video.zst''] 25 (4003 / 4)
     = ascii ''cat video.zst | zstd -d | pv -q -L 25019''"
proof -
  have product: "float_result (100075 / 4) = Fin (100075 / 4)" by code_simp
  have truncated: "int_of_float (Fin (100075 / 4)) = Inr 25018" by code_simp
  have rounded: "round_half_even (100075 / 4) = 25019" by code_simp
  have code: "generate_playback_command [ascii ''video.zst''] (Fin 25) (PyFloat (Fin (4003 / 4)))
     = Inr (ascii ''cat video.zst | zstd -d | pv -q -L 25018'')"
    by (simp add: generate_playback_command_def num_mul_float_def bind_err_def product truncated
                  str_int_def digits.simps ascii_def str_of_path_def join_parts_def)
  have spec: "spec_generate_playback_command [ascii ''video.zst''] 25 (4003 / 4)
     = ascii ''cat video.zst | zstd -d | pv -q -L 25019''"
    by (simp add: spec_generate_playback_command_def rounded Let_def
                  str_int_def digits.simps ascii_def str_of_path_def join_parts_def)
  show ?thesis using code spec by simp
qed

section \<open>Frame renderer\<close>

lemma decimal_value_snoc: "decimal_value (ds @ [d]) = 10 * decimal_value ds + (d - 48)"
  by (simp add: decimal_value_def)

lemma decimal_value_digits: "decimal_value (digits n) = n"
proof (induction n rule: digits.induct)
  case (1 n)
  show ?case
  proof (cases "n < 10")
    case True
    then have "digits n = [48 + n]" by (subst digits.simps) simp
    then show ?thesis by (simp add: decimal_value_def)
  next
    case False
    then have "digits n = digits (n div 10) @ [48 + n mod 10]" by (subst digits.simps) simp
    then have "decimal_value (digits n) = 10 * decimal_value (digits (n div 10)) + n mod 10"
      by (simp add: decimal_value_snoc)
    then show ?thesis using 1 False by simp
  qed
qed

text \<open>
  C8. For every frame image and target dimensions, the block that the frame renderer
  returns is the escape sequence \<open>ESC [ rows A\<close>, cursor up by \<open>rows\<close> lines, followed by
  the rendered content unchanged; the renderer fails only when the rendering does. The
  number in the sequence is the decimal numeral of \<open>rows\<close>.
\<close>

theorem frame_to_ansi_cursor_up:
  "frame_to_ansi H self image_path =
     (case render H (ansi_terminal_width self) (ansi_terminal_height self) image_path of
        Inl e \<Rightarrow> Inl e
      | Inr ansi_output \<Rightarrow>
          Inr ([27, 91] @ str_int (ansi_terminal_height self) @ [65] @ ansi_output))
   \<and> (0 \<le> ansi_terminal_height self \<longrightarrow>
        decimal_value (str_int (ansi_terminal_height self)) = nat (ansi_terminal_height self))"
  by (simp add: frame_to_ansi_def bind_err_def ascii_def str_int_def decimal_value_digits
           split: sum.splits)

theorem frame_to_ansi_cursor_up_witness:
  "frame_to_ansi (demo_host 0) \<lparr>ansi_terminal_width = 80, ansi_terminal_height = 22\<rparr>
       [ascii ''frame_000001.png'']
     = Inr ([27, 91, 50, 50, 65] @ ascii ''pixels'')
   \<and> decimal_value [50, 50] = 22"
  using frame_to_ansi_cursor_up
    [of "demo_host 0" "\<lparr>ansi_terminal_width = 80, ansi_terminal_height = 22\<rparr>"
        "[ascii ''frame_000001.png'']"]
  by (simp add: demo_host_def str_int_def digits.simps ascii_def decimal_value_def)

section \<open>Stream encoder\<close>

lemma write_all_ok:
  "\<forall>c \<in> set chunks. enc c \<Longrightarrow> write_all enc w chunks = (None, w @ concat chunks)"
  by (induction chunks arbitrary: w) simp_all

lemma write_stream_ok:
  assumes "can_open_w H fs temp_file"
    and "encodable H (replicate (nat r) 10)" and "encodable H hide_cursor"
    and "encodable H show_cursor" and "\<forall>b \<in> set L. encodable H b"
  shows "write_stream H temp_file L r fs =
      (None, fs(temp_file \<mapsto>
         replicate (nat r) 10 @ [27, 91, 63, 50, 53, 108] @ concat L @ [27, 91, 63, 50, 53, 104]))"
proof -
  have "\<forall>c \<in> set ([replicate (nat r) 10, hide_cursor] @ L @ [show_cursor]). encodable H c"
    using assms by auto
  then have "write_all (encodable H) [] ([replicate (nat r) 10, hide_cursor] @ L @ [show_cursor])
      = (None, [] @ concat ([replicate (nat r) 10, hide_cursor] @ L @ [show_cursor]))"
    by (rule write_all_ok)
  moreover have "hide_cursor = [27, 91, 63, 50, 53, 108]" by (simp add: hide_cursor_def ascii_def)
  moreover have "show_cursor = [27, 91, 63, 50, 53, 104]" by (simp add: show_cursor_def ascii_def)
  ultimately show ?thesis using assms(1) by (simp add: write_stream_def)
qed

text \<open>
  C1. For every list of frame blocks and every row count \<open>r\<close>, when the temporary file
  can be opened and the encoding of the file can encode what is written, the text that
  the stream encoder writes to the temporary file is \<open>r\<close> newline characters, the
  cursor-hide code \<open>ESC [ ? 2 5 l\<close>, the frame blocks concatenated unmodified in their
  order, and the cursor-show code \<open>ESC [ ? 2 5 h\<close>; the compressor is run on that file.
  For the empty list nothing stands between the two codes.
\<close>

theorem stream_framing:
  assumes "can_open_w H fs temp_file"
    and "encodable H (replicate (nat r) 10)" and "encodable H hide_cursor"
    and "encodable H show_cursor" and "\<forall>b \<in> set L. encodable H b"
  shows "write_stream H temp_file L r fs =
      (None, fs(temp_file \<mapsto>
         replicate (nat r) 10 @ [27, 91, 63, 50, 53, 108] @ concat L @ [27, 91, 63, 50, 53, 104]))
   \<and> compress_try H L output_path r temp_file fs =
      (case zstd H temp_file output_path (fs(temp_file \<mapsto>
         replicate (nat r) 10 @ [27, 91, 63, 50, 53, 108] @ concat L @ [27, 91, 63, 50, 53, 104])) of
         (SpawnError, fs2) \<Rightarrow> (Inl OSError, fs2)
       | (Exited rc out err, fs2) \<Rightarrow>
           if rc \<noteq> 0 then (Inl CalledProcessError, fs2) else (statistics L, fs2))"
  using write_stream_ok[OF assms] by (simp add: compress_try_def)

text \<open>
  The empty frame list with two rows: two newlines, the hide code, the show code. Two
  blocks \<open>ab\<close> and \<open>c\<close> with one row: they stand between the codes in their order.
\<close>

theorem stream_framing_witness:
  "write_stream (demo_host 0) [ascii ''video.ansi.tmp''] [] 2 (\<lambda>p. None) =
      (None, (\<lambda>p. None)([ascii ''video.ansi.tmp''] \<mapsto>
         [10, 10, 27, 91, 63, 50, 53, 108, 27, 91, 63, 50, 53, 104]))
   \<and> write_stream (demo_host 0) [ascii ''video.ansi.tmp''] [[97, 98], [99]] 1 (\<lambda>p. None) =
      (None, (\<lambda>p. None)([ascii ''video.ansi.tmp''] \<mapsto>
         [10, 27, 91, 63, 50, 53, 108, 97, 98, 99, 27, 91, 63, 50, 53, 104]))"
  using stream_framing
    [of "demo_host 0" "\<lambda>p. None" "[ascii ''video.ansi.tmp'']" 2 "[]"]
    stream_framing
    [of "demo_host 0" "\<lambda>p. None" "[ascii ''video.ansi.tmp'']" 1 "[[97, 98], [99]]"]
  by (simp add: demo_host_def numeral_2_eq_2)

text \<open>
  C6. For every invocation of the stream encoder that has a temporary file name,
  whatever opening, writing, the compressor and the statistics do, the temporary file
  does not exist in the file system that the encoder leaves. (When pathlib cannot form
  the temporary name, the encoder raises before it creates anything.)
\<close>

theorem compress_cleanup:
  assumes "with_suffix H output_path (ascii ''.ansi.tmp'') = Inr temp_file"
  shows "snd (compress_frames_to_file H L output_path r fs) temp_file = None"
  using assms by (simp add: compress_frames_to_file_def split: prod.splits)

text \<open>A compressor that succeeds and a compressor that exits with code 1.\<close>

theorem compress_cleanup_witness:
  "snd (compress_frames_to_file (demo_host 0) [ascii ''ab''] [ascii ''out'', ascii ''video.zst'']
          2 (\<lambda>p. None)) [ascii ''out'', ascii ''video.ansi.tmp''] = None
   \<and> snd (compress_frames_to_file (demo_host 1) [ascii ''ab''] [ascii ''out'', ascii ''video.zst'']
          2 (\<lambda>p. None)) [ascii ''out'', ascii ''video.ansi.tmp''] = None"
  using compress_cleanup[of "demo_host 0" "[ascii ''out'', ascii ''video.zst'']"
      "[ascii ''out'', ascii ''video.ansi.tmp'']" "[ascii ''ab'']" 2 "\<lambda>p. None"]
    compress_cleanup[of "demo_host 1" "[ascii ''out'', ascii ''video.zst'']"
      "[ascii ''out'', ascii ''video.ansi.tmp'']" "[ascii ''ab'']" 2 "\<lambda>p. None"]
  by (simp add: demo_host_def ascii_def)

lemma frame_sizes_of_spec:
  "frame_sizes_of L = Inr sizes \<Longrightarrow>
     list_all2 (\<lambda>fd n. \<exists>bs. encode_utf8 fd = Inr bs \<and> n = length bs) L sizes"
proof (induction L arbitrary: sizes)
  case Nil
  then show ?case by simp
next
  case (Cons fd L)
  then show ?case by (auto simp: bind_err_def split: sum.splits)
qed

lemma statistics_spec:
  assumes "statistics L = Inr st"
  shows "list_all2 (\<lambda>fd n. \<exists>bs. encode_utf8 fd = Inr bs \<and> n = length bs) L (frame_sizes st)
       \<and> total_frames st = length L
       \<and> avg_frame_size st =
          (if L = [] then PyInt 0
           else PyFloat (Fin (round64 (of_nat (sum_list (frame_sizes st)) / of_nat (length L)))))"
proof -
  from assms obtain sizes avg where
    fs: "frame_sizes_of L = Inr sizes"
    and avg: "(if sizes \<noteq> [] then map_sum id PyFloat
                 (int_truediv (int (sum_list sizes)) (int (length sizes)))
               else Inr (PyInt 0)) = Inr avg"
    and st: "st = \<lparr>frame_sizes = sizes, total_frames = length sizes, avg_frame_size = avg\<rparr>"
    by (auto simp: statistics_def bind_err_def split: sum.splits)
  have la: "list_all2 (\<lambda>fd n. \<exists>bs. encode_utf8 fd = Inr bs \<and> n = length bs) L sizes"
    using fs by (rule frame_sizes_of_spec)
  then have len: "length sizes = length L" by (simp add: list_all2_lengthD)
  have a: "avg = (if L = [] then PyInt 0
           else PyFloat (Fin (round64 (of_nat (sum_list sizes) / of_nat (length L)))))"
  proof (cases "L = []")
    case True
    then have "sizes = []" using len by simp
    then show ?thesis using avg True by simp
  next
    case False
    then have ne: "sizes \<noteq> []" using len by auto
    then obtain x where x: "int_truediv (int (sum_list sizes)) (int (length sizes)) = Inr x"
      and ax: "avg = PyFloat x"
      using avg by (cases "int_truediv (int (sum_list sizes)) (int (length sizes))") auto
    from x obtain r where r: "float_result (of_int (int (sum_list sizes)) / of_int (int (length sizes))) = Fin r"
      and xr: "x = Fin r"
      by (auto simp: int_truediv_def split: if_splits pyfloat.splits)
    have "r = round64 (of_int (int (sum_list sizes)) / of_int (int (length sizes)))"
      using r by (rule float_result_Fin)
    then show ?thesis using False ax xr len by simp
  qed
  show ?thesis using la len a by (simp add: st)
qed

lemma statistics_no_zero_division:
  "statistics L \<noteq> Inl (ZeroDivisionError ''division by zero'')"
proof -
  have a: "\<And>b. encode_utf8 b \<noteq> Inl (ZeroDivisionError ''division by zero'')"
  proof -
    fix b show "encode_utf8 b \<noteq> Inl (ZeroDivisionError ''division by zero'')"
      by (induction b) (auto simp: bind_err_def split: option.splits sum.splits)
  qed
  have b: "frame_sizes_of L \<noteq> Inl (ZeroDivisionError ''division by zero'')"
    using a by (induction L) (auto simp: bind_err_def split: sum.splits)
  show ?thesis using b
    by (auto simp: statistics_def bind_err_def int_truediv_def
             split: sum.splits if_splits pyfloat.splits)
qed

lemma compress_result:
  assumes "fst (compress_frames_to_file H L output_path r fs) = Inr st"
  shows "statistics L = Inr st"
  using assms
  by (auto simp: compress_frames_to_file_def compress_try_def
           split: sum.splits prod.splits option.splits proc.splits if_splits)

text \<open>
  C9. For every list of frame blocks, the statistics that the stream encoder returns
  have \<open>total_frames\<close> equal to the length of the list, \<open>frame_sizes\<close> the lengths of the
  UTF-8 encodings of the blocks, and \<open>avg_frame_size\<close> the float nearest to the sum of
  those lengths divided by their count when the list is not empty, and the int 0 when
  it is empty; computing them never divides by zero.
\<close>

theorem compress_statistics:
  "(fst (compress_frames_to_file H L output_path r fs) = Inr st \<longrightarrow>
      list_all2 (\<lambda>fd n. \<exists>bs. encode_utf8 fd = Inr bs \<and> n = length bs) L (frame_sizes st)
      \<and> total_frames st = length L
      \<and> avg_frame_size st =
          (if L = [] then PyInt 0
           else PyFloat (Fin (round64 (of_nat (sum_list (frame_sizes st)) / of_nat (length L))))))
   \<and> statistics L \<noteq> Inl (ZeroDivisionError ''division by zero'')"
  using compress_result statistics_spec statistics_no_zero_division by blast

text \<open>
  Two blocks, one with the half-block character (three bytes) and a newline, one of
  three ASCII characters: sizes 4 and 3, average 3.5.
\<close>

theorem compress_statistics_witness:
  "fst (compress_frames_to_file (demo_host 0) [[9604, 10], ascii ''abc'']
          [ascii ''video.zst''] 2 (\<lambda>p. None))
     = Inr \<lparr>frame_sizes = [4, 3], total_frames = 2, avg_frame_size = PyFloat (Fin (7 / 2))\<rparr>
   \<and> PyFloat (Fin (7 / 2)) = PyFloat (Fin (round64 (of_nat (sum_list [4, 3]) / of_nat 2)))"
proof -
  have q: "float_result (7 / 2) = Fin (7 / 2)" by code_simp
  have ev: "fst (compress_frames_to_file (demo_host 0) [[9604, 10], ascii ''abc'']
          [ascii ''video.zst''] 2 (\<lambda>p. None))
     = Inr \<lparr>frame_sizes = [4, 3], total_frames = 2, avg_frame_size = PyFloat (Fin (7 / 2))\<rparr>"
    by (simp add: compress_frames_to_file_def compress_try_def write_stream_def demo_host_def
                  statistics_def bind_err_def utf8_encode_cp_def int_truediv_def ascii_def q)
  show ?thesis
    using compress_statistics
      [of "demo_host 0" "[[9604, 10], ascii ''abc'']" "[ascii ''video.zst'']" 2 "\<lambda>p. None"
          "\<lparr>frame_sizes = [4, 3], total_frames = 2, avg_frame_size = PyFloat (Fin (7 / 2))\<rparr>"]
      ev
    by simp
qed

section \<open>Frame extraction\<close>

lemma length_fixed_digits [simp]: "length (fixed_digits w n) = w"
  by (induction w arbitrary: n) simp_all

lemma fixed_digits_zero: "fixed_digits w 0 = replicate w 48"
  by (induction w) (simp_all add: replicate_append_same)

lemma snoc_less_snoc:
  "length xs = length ys \<Longrightarrow>
     (xs @ [a] < ys @ [b] \<longleftrightarrow> xs < ys \<or> (xs = ys \<and> a < b))"
  for xs ys :: "nat list"
  by (induction xs ys rule: list_induct2) auto

lemma fixed_digits_mono:
  "n < m \<Longrightarrow> m < 10 ^ w \<Longrightarrow> fixed_digits w n < fixed_digits w m"
proof (induction w arbitrary: n m)
  case 0
  then show ?case by simp
next
  case (Suc w)
  have m10: "m div 10 < 10 ^ w" using Suc.prems(2) by (simp add: less_mult_imp_div_less mult.commute)
  have le: "n div 10 \<le> m div 10" using Suc.prems(1) by (simp add: div_le_mono)
  show ?case
  proof (cases "n div 10 < m div 10")
    case True
    then have "fixed_digits w (n div 10) < fixed_digits w (m div 10)"
      using m10 by (rule Suc.IH)
    then show ?thesis by (simp add: snoc_less_snoc)
  next
    case False
    then have eq: "n div 10 = m div 10" using le by simp
    have "n mod 10 < m mod 10"
      using Suc.prems(1) eq by (metis add_less_cancel_left mult_div_mod_eq)
    then show ?thesis using eq by (simp add: snoc_less_snoc)
  qed
qed

lemma zero_pad_digits:
  "n < 10 ^ w \<Longrightarrow> 0 < w \<Longrightarrow> zero_pad w (digits n) = fixed_digits w n"
proof (induction w arbitrary: n)
  case 0
  then show ?case by simp
next
  case (Suc w)
  show ?case
  proof (cases "n < 10")
    case True
    then have d: "digits n = [48 + n]" by (subst digits.simps) simp
    have "fixed_digits (Suc w) n = replicate w 48 @ [48 + n]"
      using True by (simp add: fixed_digits_zero)
    then show ?thesis using d by (simp add: zero_pad_def)
  next
    case False
    then have d: "digits n = digits (n div 10) @ [48 + n mod 10]" by (subst digits.simps) simp
    have wpos: "0 < w"
    proof (rule ccontr)
      assume "\<not> 0 < w"
      then have "w = 0" by simp
      then show False using Suc.prems(1) False by simp
    qed
    have n10: "n div 10 < 10 ^ w"
      using Suc.prems(1) by (simp add: less_mult_imp_div_less mult.commute)
    have ih: "zero_pad w (digits (n div 10)) = fixed_digits w (n div 10)"
      using n10 wpos by (rule Suc.IH)
    have "zero_pad (Suc w) (digits n) = zero_pad w (digits (n div 10)) @ [48 + n mod 10]"
      by (simp add: zero_pad_def d)
    then show ?thesis using ih by simp
  qed
qed

lemma frame_name_fixed:
  "n < 10 ^ 6 \<Longrightarrow> frame_name n = ascii ''frame_'' @ fixed_digits 6 n @ ascii ''.png''"
  by (simp add: frame_name_def zero_pad_digits)

lemma frame_name_mono:
  assumes "n < m" and "m < 10 ^ 6"
  shows "frame_name n < frame_name m"
proof -
  have lt: "fixed_digits 6 n < fixed_digits 6 m" using assms by (rule fixed_digits_mono)
  have "(fixed_digits 6 n, fixed_digits 6 m) \<in> lexord {(u, v). u < v}"
    using lt by (simp add: list_less_def)
  then have "(fixed_digits 6 n @ ascii ''.png'', fixed_digits 6 m @ ascii ''.png'')
      \<in> lexord {(u, v). u < v}"
    by (rule lexord_sufI) simp
  then have "(ascii ''frame_'' @ fixed_digits 6 n @ ascii ''.png'',
         ascii ''frame_'' @ fixed_digits 6 m @ ascii ''.png'') \<in> lexord {(u, v). u < v}"
    by (rule lexord_append_leftI)
  then show ?thesis using assms by (simp add: frame_name_fixed list_less_def)
qed

lemma glob_match_frame_name: "glob_match (frame_name n)"
  by (simp add: glob_match_def frame_name_def ascii_def)

lemma path_mono:
  fixes a b :: pystr
  assumes "a < b"
  shows "d @ [a] < d @ [b]"
proof -
  have "([a], [b]) \<in> lexord {(u, v). u < v}" using assms by simp
  then have "(d @ [a], d @ [b]) \<in> lexord {(u, v). u < v}" by (rule lexord_append_leftI)
  then show ?thesis by (simp add: list_less_def)
qed

text \<open>
  Below one million frames the names have six digits, their order as strings is the
  order of the frame numbers, and the extractor yields the frames in increasing order
  whatever the order in which the directory enumerates them.
\<close>

lemma extract_frames_ordered:
  assumes th: "terminal_height self = Some th"
    and run: "ffmpeg H (video_path self) (terminal_width self) (th * 2) d
               = (Exited 0 out err, entries)"
    and dist: "distinct entries"
    and names: "set entries = frame_name ` S"
    and small: "\<forall>n \<in> S. n < 10 ^ 6"
  shows "extract_frames H self d = Inr (map (\<lambda>n. d @ [frame_name n]) (sorted_list_of_set S))"
proof -
  let ?g = "\<lambda>n. d @ [frame_name n]"
  have mono: "\<And>n m. n \<in> S \<Longrightarrow> m \<in> S \<Longrightarrow> n < m \<Longrightarrow> ?g n < ?g m"
    using small by (intro path_mono frame_name_mono) auto
  have inj: "inj_on ?g S"
  proof (rule inj_onI)
    fix n m assume n: "n \<in> S" and m: "m \<in> S" and eq: "?g n = ?g m"
    show "n = m"
    proof (rule ccontr)
      assume "n \<noteq> m"
      then consider "n < m" | "m < n" by linarith
      then show False
      proof cases
        case 1
        then have "?g n < ?g m" using n m by (rule mono[rotated 2])
        then show False using eq by simp
      next
        case 2
        then have "?g m < ?g n" using m n by (rule mono[rotated 2])
        then show False using eq by simp
      qed
    qed
  qed
  have injf: "inj_on frame_name S"
  proof (rule inj_onI)
    fix n m assume "n \<in> S" "m \<in> S" "frame_name n = frame_name m"
    then show "n = m" using inj by (auto dest: inj_onD)
  qed
  have fin: "finite S"
  proof (rule finite_imageD)
    show "finite (frame_name ` S)" using names[symmetric] by simp
    show "inj_on frame_name S" by (rule injf)
  qed
  have all: "filter glob_match entries = entries"
    using names glob_match_frame_name by (auto simp: filter_id_conv)
  let ?xs = "map (\<lambda>name. d @ [name]) entries"
  let ?ys = "map ?g (sorted_list_of_set S)"
  have s1: "sorted (sort ?xs)" and d1: "distinct (sort ?xs)"
    using dist by (simp_all add: distinct_map inj_on_def)
  have set1: "set (sort ?xs) = ?g ` S" using names by (simp add: image_image)
  have s2: "sorted ?ys"
  proof -
    have "sorted_wrt (<) (sorted_list_of_set S)" by (rule strict_sorted_list_of_set)
    then have "sorted_wrt (\<lambda>n m. ?g n \<le> ?g m) (sorted_list_of_set S)"
    proof (rule sorted_wrt_mono_rel[rotated])
      fix n m assume "n \<in> set (sorted_list_of_set S)" "m \<in> set (sorted_list_of_set S)" "n < m"
      then show "?g n \<le> ?g m" using mono[of n m] fin by (simp add: less_imp_le)
    qed
    then show ?thesis by (simp add: sorted_map)
  qed
  have d2: "distinct ?ys" using inj fin by (simp add: distinct_map)
  have set2: "set ?ys = ?g ` S" using fin by simp
  have "sort ?xs = ?ys"
    using s1 d1 s2 d2 set1 set2 by (intro sorted_distinct_set_unique) simp_all
  then show ?thesis using th run all by (simp add: extract_frames_def)
qed

text \<open>
  C4. The claim fails from one million frames on: the pattern \<open>frame_%06d.png\<close> names
  frame 1000000 \<open>frame_1000000.png\<close>, which sorts as a string before \<open>frame_999999.png\<close>,
  so the extractor yields frame 1000000 before frame 999999.
\<close>

theorem extract_frames_million_misordered:
  "frame_name 999999 = ascii ''frame_999999.png''
   \<and> frame_name 1000000 = ascii ''frame_1000000.png''
   \<and> extract_frames (listing_host [frame_name 999999, frame_name 1000000])
        \<lparr>video_path = [ascii ''in.mp4''], terminal_width = 80, fps = None, width = Some 1920,
      height = Some 1080, frame_count = None, terminal_height = Some 22\<rparr> [ascii ''tmp'']
     = Inr [[ascii ''tmp'', ascii ''frame_1000000.png''], [ascii ''tmp'', ascii ''frame_999999.png'']]"
proof -
  have a: "frame_name 999999 = ascii ''frame_999999.png''"
    by (simp add: frame_name_def zero_pad_def digits.simps ascii_def)
  have b: "frame_name 1000000 = ascii ''frame_1000000.png''"
    by (simp add: frame_name_def zero_pad_def digits.simps ascii_def)
  have c: "extract_frames (listing_host [ascii ''frame_999999.png'', ascii ''frame_1000000.png''])
        \<lparr>video_path = [ascii ''in.mp4''], terminal_width = 80, fps = None, width = Some 1920,
      height = Some 1080, frame_count = None, terminal_height = Some 22\<rparr> [ascii ''tmp'']
     = Inr [[ascii ''tmp'', ascii ''frame_1000000.png''], [ascii ''tmp'', ascii ''frame_999999.png'']]"
    by (simp add: extract_frames_def listing_host_def demo_host_def glob_match_def ascii_def)
  show ?thesis using a b c by simp
qed

section \<open>Metadata probe\<close>

lemma find_video_stream_none:
  "\<forall>s \<in> set xs. no_video s \<Longrightarrow> find_video_stream xs = Inr None"
  by (induction xs) (auto simp: bind_err_def no_video_def)

lemma find_video_stream_first:
  "find_video_stream xs = Inr (Some vs) \<Longrightarrow>
     \<exists>before rest. xs = before @ vs # rest \<and> (\<forall>s \<in> set before. no_video s)
       \<and> subscript vs (ascii ''codec_type'') = Inr (JStr (ascii ''video''))"
proof (induction xs)
  case Nil
  then show ?case by simp
next
  case (Cons x xs)
  from Cons.prems obtain t where t: "subscript x (ascii ''codec_type'') = Inr t"
    by (auto simp: bind_err_def split: sum.splits)
  show ?case
  proof (cases "t = JStr (ascii ''video'')")
    case True
    then have "vs = x" using Cons.prems t by (simp add: bind_err_def)
    then have "x # xs = [] @ vs # xs \<and> (\<forall>s \<in> set []. no_video s)
       \<and> subscript vs (ascii ''codec_type'') = Inr (JStr (ascii ''video''))"
      using t True by simp
    then show ?thesis by blast
  next
    case False
    then have "find_video_stream xs = Inr (Some vs)" using Cons.prems t by (simp add: bind_err_def)
    then obtain before rest where br: "xs = before @ vs # rest" "\<forall>s \<in> set before. no_video s"
       "subscript vs (ascii ''codec_type'') = Inr (JStr (ascii ''video''))"
      using Cons.IH by blast
    have "no_video x" using t False by (auto simp: no_video_def)
    then have "x # xs = (x # before) @ vs # rest \<and> (\<forall>s \<in> set (x # before). no_video s)
       \<and> subscript vs (ascii ''codec_type'') = Inr (JStr (ascii ''video''))"
      using br by simp
    then show ?thesis by blast
  qed
qed

lemma read_metadata_returns:
  assumes "fst (read_metadata H doc self) = Inr m"
  shows "\<exists>sv xs vs. subscript doc (ascii ''streams'') = Inr sv \<and> iterate sv = Inr xs
      \<and> find_video_stream xs = Inr (Some vs)
      \<and> bind_err (subscript vs (ascii ''width'')) (py_int H) = Inr (m_width m)
      \<and> bind_err (subscript vs (ascii ''height'')) (py_int H) = Inr (m_height m)
      \<and> parse_fps H vs = Inr (m_fps m)
      \<and> read_frame_count H doc vs (m_fps m) = Inr (m_frame_count m)"
proof -
  obtain r where r: "bind_err (subscript doc (ascii ''streams'')) (\<lambda>streams.
           bind_err (iterate streams) find_video_stream) = r" by simp
  from assms r obtain vs where vs: "r = Inr (Some vs)"
    by (cases r) (auto simp: read_metadata_def split: option.splits)
  from r vs obtain sv xs where sv: "subscript doc (ascii ''streams'') = Inr sv"
    and xs: "iterate sv = Inr xs" and f: "find_video_stream xs = Inr (Some vs)"
    by (auto simp: bind_err_def split: sum.splits)
  have "bind_err (subscript vs (ascii ''width'')) (py_int H) = Inr (m_width m)
      \<and> bind_err (subscript vs (ascii ''height'')) (py_int H) = Inr (m_height m)
      \<and> parse_fps H vs = Inr (m_fps m)
      \<and> read_frame_count H doc vs (m_fps m) = Inr (m_frame_count m)"
    using assms r vs by (auto simp: read_metadata_def split: sum.splits)
  then show ?thesis using sv xs f by blast
qed

text \<open>
  C7, as amended. The metadata probe fails with a RuntimeError when the probe tool exits
  non-zero and when its output is not parseable JSON, and with a ValueError when the
  streams of the parsed document are a list without a video-typed stream. Whenever it
  returns, the tool exited with 0, its output was parsed, and the width, height, frame
  rate and frame count returned are those read from the first video-typed stream.
  (It is not claimed that the probe fails in these three cases only.)
\<close>

theorem get_video_metadata_outcomes:
  "(\<forall>rc out err. ffprobe H (video_path self) = Exited rc out err \<and> rc \<noteq> 0 \<longrightarrow>
       fst (get_video_metadata H self) = Inl (RuntimeError (ascii ''ffprobe failed: '' @ err)))
   \<and> (\<forall>out err msg. ffprobe H (video_path self) = Exited 0 out err \<and> json_loads H out = Inl msg
       \<longrightarrow> fst (get_video_metadata H self)
            = Inl (RuntimeError (ascii ''Failed to parse ffprobe output: '' @ msg)))
   \<and> (\<forall>out err doc streams. ffprobe H (video_path self) = Exited 0 out err
         \<and> json_loads H out = Inr doc
         \<and> subscript doc (ascii ''streams'') = Inr (JArr streams)
         \<and> (\<forall>s \<in> set streams. no_video s)
       \<longrightarrow> fst (get_video_metadata H self) = Inl (ValueError (ascii ''No video stream found'')))
   \<and> (\<forall>m. fst (get_video_metadata H self) = Inr m \<longrightarrow>
        (\<exists>out err doc sv before vs rest.
           ffprobe H (video_path self) = Exited 0 out err \<and> json_loads H out = Inr doc
           \<and> subscript doc (ascii ''streams'') = Inr sv \<and> iterate sv = Inr (before @ vs # rest)
           \<and> (\<forall>s \<in> set before. no_video s)
           \<and> subscript vs (ascii ''codec_type'') = Inr (JStr (ascii ''video''))
           \<and> bind_err (subscript vs (ascii ''width'')) (py_int H) = Inr (m_width m)
           \<and> bind_err (subscript vs (ascii ''height'')) (py_int H) = Inr (m_height m)
           \<and> parse_fps H vs = Inr (m_fps m)
           \<and> read_frame_count H doc vs (m_fps m) = Inr (m_frame_count m)))"
proof (intro conjI allI impI)
  fix rc out err
  assume "ffprobe H (video_path self) = Exited rc out err \<and> rc \<noteq> 0"
  then show "fst (get_video_metadata H self) = Inl (RuntimeError (ascii ''ffprobe failed: '' @ err))"
    by (simp add: get_video_metadata_def)
next
  fix out err msg
  assume "ffprobe H (video_path self) = Exited 0 out err \<and> json_loads H out = Inl msg"
  then show "fst (get_video_metadata H self)
            = Inl (RuntimeError (ascii ''Failed to parse ffprobe output: '' @ msg))"
    by (simp add: get_video_metadata_def)
next
  fix out err doc streams
  assume a: "ffprobe H (video_path self) = Exited 0 out err
         \<and> json_loads H out = Inr doc
         \<and> subscript doc (ascii ''streams'') = Inr (JArr streams)
         \<and> (\<forall>s \<in> set streams. no_video s)"
  then have "find_video_stream streams = Inr None" by (simp add: find_video_stream_none)
  then show "fst (get_video_metadata H self) = Inl (ValueError (ascii ''No video stream found''))"
    using a by (simp add: get_video_metadata_def read_metadata_def bind_err_def iterate_def)
next
  fix m
  assume a: "fst (get_video_metadata H self) = Inr m"
  then obtain out err doc where run: "ffprobe H (video_path self) = Exited 0 out err"
    and doc: "json_loads H out = Inr doc" and rm: "fst (read_metadata H doc self) = Inr m"
    by (auto simp: get_video_metadata_def split: proc.splits if_splits sum.splits)
  from read_metadata_returns[OF rm] obtain sv xs vs where
    sv: "subscript doc (ascii ''streams'') = Inr sv" and xs: "iterate sv = Inr xs"
    and f: "find_video_stream xs = Inr (Some vs)"
    and vals: "bind_err (subscript vs (ascii ''width'')) (py_int H) = Inr (m_width m)
      \<and> bind_err (subscript vs (ascii ''height'')) (py_int H) = Inr (m_height m)
      \<and> parse_fps H vs = Inr (m_fps m)
      \<and> read_frame_count H doc vs (m_fps m) = Inr (m_frame_count m)"
    by blast
  from find_video_stream_first[OF f] obtain before rest where
    "xs = before @ vs # rest" "\<forall>s \<in> set before. no_video s"
    "subscript vs (ascii ''codec_type'') = Inr (JStr (ascii ''video''))"
    by blast
  then show "\<exists>out err doc sv before vs rest.
           ffprobe H (video_path self) = Exited 0 out err \<and> json_loads H out = Inr doc
           \<and> subscript doc (ascii ''streams'') = Inr sv \<and> iterate sv = Inr (before @ vs # rest)
           \<and> (\<forall>s \<in> set before. no_video s)
           \<and> subscript vs (ascii ''codec_type'') = Inr (JStr (ascii ''video''))
           \<and> bind_err (subscript vs (ascii ''width'')) (py_int H) = Inr (m_width m)
           \<and> bind_err (subscript vs (ascii ''height'')) (py_int H) = Inr (m_height m)
           \<and> parse_fps H vs = Inr (m_fps m)
           \<and> read_frame_count H doc vs (m_fps m) = Inr (m_frame_count m)"
    using run doc sv xs vals by blast
qed

text \<open>
  The four cases on concrete hosts: ffprobe exits with 1; its output does not parse; the
  only stream is an audio stream; an audio stream is followed by a complete video stream.
\<close>

theorem get_video_metadata_outcomes_witness:
  "fst (get_video_metadata (probe_host 1 (ascii ''boom'') (Inr (JObj []))) new_processor)
     = Inl (RuntimeError (ascii ''ffprobe failed: boom''))
   \<and> fst (get_video_metadata (probe_host 0 [] (Inl (ascii ''Expecting value''))) new_processor)
     = Inl (RuntimeError (ascii ''Failed to parse ffprobe output: Expecting value''))
   \<and> fst (get_video_metadata
         (probe_host 0 [] (Inr (JObj [(ascii ''streams'', JArr [audio_stream])]))) new_processor)
     = Inl (ValueError (ascii ''No video stream found''))
   \<and> fst (get_video_metadata
         (probe_host 0 [] (Inr (JObj [(ascii ''streams'', JArr [audio_stream, video_stream_full])])))
         new_processor)
     = Inr \<lparr>m_fps = Fin 30, m_width = 1920, m_height = 1080, m_frame_count = 10\<rparr>
   \<and> (\<exists>vs. parse_fps
         (probe_host 0 [] (Inr (JObj [(ascii ''streams'', JArr [audio_stream, video_stream_full])])))
         vs = Inr (Fin 30))"
proof -
  let ?H1 = "probe_host 1 (ascii ''boom'') (Inr (JObj []))"
  let ?H2 = "probe_host 0 [] (Inl (ascii ''Expecting value''))"
  let ?doc3 = "JObj [(ascii ''streams'', JArr [audio_stream])]"
  let ?H3 = "probe_host 0 [] (Inr ?doc3)"
  let ?doc4 = "JObj [(ascii ''streams'', JArr [audio_stream, video_stream_full])]"
  let ?H4 = "probe_host 0 [] (Inr ?doc4)"
  let ?m = "\<lparr>m_fps = Fin 30, m_width = 1920, m_height = 1080, m_frame_count = 10\<rparr>"
  have p1: "ffprobe ?H1 (video_path new_processor) = Exited 1 (ascii ''ffprobe output'') (ascii ''boom'')
      \<and> (1::int) \<noteq> 0"
    by (simp add: probe_host_def demo_host_def)
  have c1: "fst (get_video_metadata ?H1 new_processor)
     = Inl (RuntimeError (ascii ''ffprobe failed: '' @ ascii ''boom''))"
    using get_video_metadata_outcomes[of ?H1 new_processor] p1 by blast
  have p2: "ffprobe ?H2 (video_path new_processor) = Exited 0 (ascii ''ffprobe output'') []
      \<and> json_loads ?H2 (ascii ''ffprobe output'') = Inl (ascii ''Expecting value'')"
    by (simp add: probe_host_def demo_host_def)
  have c2: "fst (get_video_metadata ?H2 new_processor)
     = Inl (RuntimeError (ascii ''Failed to parse ffprobe output: '' @ ascii ''Expecting value''))"
    using get_video_metadata_outcomes[of ?H2 new_processor] p2 by blast
  have p3: "ffprobe ?H3 (video_path new_processor) = Exited 0 (ascii ''ffprobe output'') []
      \<and> json_loads ?H3 (ascii ''ffprobe output'') = Inr ?doc3
      \<and> subscript ?doc3 (ascii ''streams'') = Inr (JArr [audio_stream])
      \<and> (\<forall>s \<in> set [audio_stream]. no_video s)"
    by (simp add: probe_host_def demo_host_def subscript_def no_video_def audio_stream_def ascii_def)
  have c3: "fst (get_video_metadata ?H3 new_processor)
     = Inl (ValueError (ascii ''No video stream found''))"
    using get_video_metadata_outcomes[of ?H3 new_processor] p3 by blast
  have q: "float_result 30 = Fin 30" by code_simp
  have f4: "parse_fps ?H4 video_stream_full = Inr (Fin 30)"
    by (simp add: parse_fps_def subscript_def video_stream_full_def bind_err_def str_to_float_def
                  probe_host_def demo_host_def float_truediv_def q ascii_def)
  have e4: "fst (get_video_metadata ?H4 new_processor) = Inr ?m"
    using f4
    by (simp add: get_video_metadata_def read_metadata_def probe_host_def demo_host_def
                  subscript_def iterate_def bind_err_def audio_stream_def video_stream_full_def
                  py_int_def read_frame_count_def has_key_def new_processor_def ascii_def)
  have c4: "\<exists>vs. parse_fps ?H4 vs = Inr (Fin 30)"
  proof -
    from get_video_metadata_outcomes[of ?H4 new_processor] e4
    obtain vs where "parse_fps ?H4 vs = Inr (m_fps ?m)" by blast
    then show ?thesis by auto
  qed
  show ?thesis using c1 c2 c3 e4 c4 by (simp add: ascii_def)
qed

text \<open>
  C7 as the specification states it, with \<open>exactly when\<close>, fails: ffprobe exits with 0,
  its output parses, the parsed document has a video-typed stream, and the probe fails
  all the same, with a KeyError, because that stream has no \<open>width\<close>.
\<close>

theorem get_video_metadata_exactly_counterexample:
  "ffprobe (probe_host 0 []
       (Inr (JObj [(ascii ''streams'', JArr [JObj [(ascii ''codec_type'', JStr (ascii ''video''))]])])))
     (video_path new_processor) = Exited 0 (ascii ''ffprobe output'') []
   \<and> json_loads (probe_host 0 []
       (Inr (JObj [(ascii ''streams'', JArr [JObj [(ascii ''codec_type'', JStr (ascii ''video''))]])])))
     (ascii ''ffprobe output'')
     = Inr (JObj [(ascii ''streams'', JArr [JObj [(ascii ''codec_type'', JStr (ascii ''video''))]])])
   \<and> find_video_stream [JObj [(ascii ''codec_type'', JStr (ascii ''video''))]]
     = Inr (Some (JObj [(ascii ''codec_type'', JStr (ascii ''video''))]))
   \<and> fst (get_video_metadata (probe_host 0 []
       (Inr (JObj [(ascii ''streams'', JArr [JObj [(ascii ''codec_type'', JStr (ascii ''video''))]])])))
       new_processor)
     = Inl (KeyError (ascii ''width''))"
  by (simp add: get_video_metadata_def read_metadata_def probe_host_def demo_host_def
                subscript_def iterate_def bind_err_def new_processor_def ascii_def)

end
